theory Spec2Isabelle
  imports Complex_Main "HOL-Library.AList"
begin

section \<open>The data model of orchestrator.py\<close>

text \<open>
  The enumerations of the module, constructor for constructor.
\<close>

datatype AgentStatus = IDLE | BUSY | ERROR | OFFLINE | INITIALIZING

datatype TaskPriority = LOW | MEDIUM | HIGH | CRITICAL

datatype TaskStatus = PENDING | ASSIGNED | IN_PROGRESS | COMPLETED | FAILED | CANCELLED

fun priority_value :: "TaskPriority \<Rightarrow> nat" where
  "priority_value LOW = 1"
| "priority_value MEDIUM = 2"
| "priority_value HIGH = 3"
| "priority_value CRITICAL = 4"

text \<open>
  A reading of \<open>datetime.now()\<close> is a clock value handed in by the caller. Opaque
  payloads (\<open>Any\<close>) are strings, metadata dictionaries are association lists of
  strings, and an adapter object is a handle: the orchestrator only tests it for
  presence and calls its \<open>execute\<close>, whose outcome is an input of the model.

  Python floats are IEEE doubles. A double is modelled by the real number it denotes,
  and the result of a float operation is the exact result rounded to a double. The
  rounding is the parameter \<open>rnd\<close> of every function below that computes with
  floats: nothing is assumed about it, so whatever is proved for all \<open>rnd\<close> holds
  for the rounding of the machine. Integer literals denote doubles as they are; a
  counter is converted with \<open>rnd\<close>; the literal \<open>0.1\<close> is the double
  \<open>rnd (1 / 10)\<close>. Overflow to infinity and NaN are not modelled.
\<close>

type_synonym datetime = nat
type_synonym payload = string
type_synonym metadata = "(string \<times> string) list"
type_synonym adapter = nat

text \<open>
  \<open>AgentInfo\<close>. The counters start at 0 and are only ever incremented, hence
  \<open>nat\<close>. The fields \<open>id\<close>, \<open>status\<close> and \<open>metadata\<close> carry the prefix
  \<open>agent_\<close> to keep them apart from the task's fields and from HOL's \<open>id\<close>.
\<close>

record AgentInfo =
  agent_id :: string
  name :: string
  provider :: string
  capabilities :: "string list"
  agent_status :: AgentStatus
  current_task :: "string option"
  tasks_completed :: nat
  tasks_failed :: nat
  average_response_time :: real
  last_active :: "datetime option"
  agent_metadata :: metadata

text \<open>\<open>Task\<close>; \<open>id\<close> and \<open>type\<close> are \<open>task_id\<close> and \<open>task_type\<close>.\<close>

record Task =
  task_id :: string
  task_type :: string
  prompt :: string
  priority :: TaskPriority
  status :: TaskStatus
  assigned_agent :: "string option"
  created_at :: datetime
  started_at :: "datetime option"
  completed_at :: "datetime option"
  result :: "payload option"
  error :: "string option"
  metadata :: metadata
  dependencies :: "string list"
  retry_count :: nat
  max_retries :: nat

record TaskResult =
  res_task_id :: string
  res_agent_id :: string
  success :: bool
  res_result :: payload
  execution_time :: real

text \<open>One entry of \<open>performance_metrics\<close>; \<open>default_metrics\<close> is the defaultdict's factory.\<close>

record Metrics =
  total_tasks :: nat
  successful_tasks :: nat
  failed_tasks :: nat
  total_time :: real
  average_time :: real

definition default_metrics :: Metrics where
  "default_metrics =
     \<lparr>total_tasks = 0, successful_tasks = 0, failed_tasks = 0, total_time = 0, average_time = 0\<rparr>"

text \<open>
  The orchestrator's state. Python dictionaries keep insertion order and the code
  iterates over \<open>agents\<close> and \<open>tasks\<close>, so both are association lists:
  \<open>d[k] = v\<close> is \<open>AList.update k v d\<close> (replace in place, or append a new key
  at the end), \<open>del d[k]\<close> is \<open>AList.delete k d\<close>, \<open>d.get(k)\<close> is
  \<open>map_of d k\<close>. \<open>task_queue\<close> is the \<open>asyncio.Queue\<close>: it holds references
  to the task objects of \<open>tasks\<close>, here their keys; the task store never deletes
  a task, so a reference is dereferenced by looking the key up.

  The last two fields are not attributes of the Python object but the share of the
  event loop in the state. \<open>scheduled_puts\<close> holds the coroutines
  \<open>task_queue.put(task)\<close> that \<open>asyncio.create_task\<close> has scheduled and the loop
  has not run yet, in creation order. \<open>frames\<close> holds the executions suspended at
  the \<open>await adapter.execute(...)\<close> of \<open>_execute_task\<close>: the task reference, the
  agent id, the agent object the coroutine holds in its local variable, and whether
  that object is still the one registered under the id (a later \<open>register_agent\<close>
  or \<open>unregister_agent\<close> of the id leaves the coroutine with an object the
  registry no longer knows). Only the holding coroutine ever mutates an agent object,
  so the frame's copy is the object's content for as long as it is suspended.
\<close>

record frame =
  frame_task :: string
  frame_agent_id :: string
  frame_agent :: AgentInfo
  attached :: bool

record AgentOrchestrator =
  agents :: "(string \<times> AgentInfo) list"
  tasks :: "(string \<times> Task) list"
  task_queue :: "string list"
  max_concurrent_tasks :: nat
  active_tasks :: int
  performance_metrics :: "(string \<times> Metrics) list"
  agent_adapters :: "(string \<times> adapter) list"
  running :: bool
  scheduled_puts :: "string list"
  frames :: "frame list"

datatype exn = KeyError string | ValueError string | RuntimeError string

definition init :: "nat \<Rightarrow> AgentOrchestrator" where
  "init n =
     \<lparr>agents = [], tasks = [], task_queue = [], max_concurrent_tasks = n, active_tasks = 0,
      performance_metrics = [], agent_adapters = [], running = False,
      scheduled_puts = [], frames = []\<rparr>"

section \<open>The agent registry\<close>

text \<open>
  \<open>register_agent\<close>: builds a fresh \<open>AgentInfo\<close> from the arguments and the
  dataclass defaults, stores it under the id (overwriting), stores the adapter when one
  is given (\<open>if adapter\<close>), and returns the record. \<open>metadata or {}\<close> is
  \<open>case_option [] id\<close>.
\<close>

definition register_agent ::
  "string \<Rightarrow> string \<Rightarrow> string \<Rightarrow> string list \<Rightarrow> adapter option \<Rightarrow> metadata option \<Rightarrow>
   AgentOrchestrator \<Rightarrow> AgentInfo \<times> AgentOrchestrator" where
  "register_agent aid nm prov caps adapter md s =
     (let agent = \<lparr>agent_id = aid, name = nm, provider = prov, capabilities = caps,
                    agent_status = IDLE, current_task = None, tasks_completed = 0,
                    tasks_failed = 0, average_response_time = 0, last_active = None,
                    agent_metadata = (case md of None \<Rightarrow> [] | Some m \<Rightarrow> m)\<rparr>;
          s1 = s\<lparr>agents := AList.update aid agent (agents s)\<rparr>;
          s2 = (case adapter of
                  None \<Rightarrow> s1
                | Some ad \<Rightarrow> s1\<lparr>agent_adapters := AList.update aid ad (agent_adapters s1)\<rparr>)
      in (agent, s2))"

text \<open>
  \<open>unregister_agent\<close>. For a registered id, the loop over \<open>tasks.items()\<close> resets
  every task assigned to the agent whose status is ASSIGNED or IN_PROGRESS and calls
  \<open>asyncio.create_task(self.task_queue.put(task))\<close> for it. With a running event loop
  that only schedules the put: the queue itself is not touched by the call. Without a
  running event loop \<open>create_task\<close> raises RuntimeError, after the task at hand has
  been reset and before anything else happens. When the loop ends normally the agent
  and, if present, its adapter are deleted and True is returned. An unknown id returns
  False and changes nothing. The result is the exception or the returned value,
  together with the state the call leaves behind.
\<close>

definition held_by :: "string \<Rightarrow> Task \<Rightarrow> bool" where
  "held_by aid task \<longleftrightarrow>
     assigned_agent task = Some aid \<and> (status task = ASSIGNED \<or> status task = IN_PROGRESS)"

fun requeue_held ::
  "bool \<Rightarrow> string \<Rightarrow> (string \<times> Task) list \<Rightarrow> exn option \<times> (string \<times> Task) list \<times> string list" where
  "requeue_held loop aid [] = (None, [], [])"
| "requeue_held loop aid ((k, task) # rest) =
     (if held_by aid task then
        (if loop then
           (let (e, ts, ps) = requeue_held loop aid rest
            in (e, (k, task\<lparr>status := PENDING, assigned_agent := None\<rparr>) # ts, k # ps))
         else (Some (RuntimeError ''no running event loop''),
               (k, task\<lparr>status := PENDING, assigned_agent := None\<rparr>) # rest, []))
      else
        (let (e, ts, ps) = requeue_held loop aid rest in (e, (k, task) # ts, ps)))"

definition unregister_agent ::
  "bool \<Rightarrow> string \<Rightarrow> AgentOrchestrator \<Rightarrow> (exn + bool) \<times> AgentOrchestrator" where
  "unregister_agent loop aid s =
     (if aid \<in> fst ` set (agents s) then
        (case requeue_held loop aid (tasks s) of
           (Some e, ts, ps) \<Rightarrow>
             (Inl e, s\<lparr>tasks := ts, scheduled_puts := scheduled_puts s @ ps\<rparr>)
         | (None, ts, ps) \<Rightarrow>
             let s1 = s\<lparr>tasks := ts, scheduled_puts := scheduled_puts s @ ps\<rparr>;
                 s2 = s1\<lparr>agents := AList.delete aid (agents s1)\<rparr>;
                 s3 = (if aid \<in> fst ` set (agent_adapters s2)
                       then s2\<lparr>agent_adapters := AList.delete aid (agent_adapters s2)\<rparr>
                       else s2)
             in (Inr True, s3))
      else (Inr False, s))"

section \<open>The ready queue\<close>

text \<open>
  \<open>self.task_queue = asyncio.Queue()\<close>: an unbounded first-in first-out queue.
  \<open>put\<close> appends at the back and never blocks; \<open>get\<close> takes the front element, and
  on an empty queue the worker's \<open>wait_for(..., timeout=1.0)\<close> raises TimeoutError,
  which is \<open>None\<close> here.
\<close>

definition queue_put :: "string \<Rightarrow> AgentOrchestrator \<Rightarrow> AgentOrchestrator" where
  "queue_put tid s = s\<lparr>task_queue := task_queue s @ [tid]\<rparr>"

definition queue_get :: "AgentOrchestrator \<Rightarrow> (string \<times> AgentOrchestrator) option" where
  "queue_get s =
     (case task_queue s of [] \<Rightarrow> None | tid # q \<Rightarrow> Some (tid, s\<lparr>task_queue := q\<rparr>))"

text \<open>\<open>n\<close> successive \<open>get\<close>s, stopping at the first timeout: the ids in dequeue order.\<close>

fun dequeue_order :: "nat \<Rightarrow> AgentOrchestrator \<Rightarrow> string list" where
  "dequeue_order 0 s = []"
| "dequeue_order (Suc n) s =
     (case queue_get s of None \<Rightarrow> [] | Some (tid, s') \<Rightarrow> tid # dequeue_order n s')"

text \<open>
  The event loop runs the oldest scheduled \<open>task_queue.put(task)\<close>: the task goes to
  the back of the queue.
\<close>

definition run_scheduled_put :: "AgentOrchestrator \<Rightarrow> AgentOrchestrator" where
  "run_scheduled_put s =
     (case scheduled_puts s of
        [] \<Rightarrow> s
      | tid # rest \<Rightarrow> queue_put tid (s\<lparr>scheduled_puts := rest\<rparr>))"

section \<open>Submission and dependencies\<close>

text \<open>\<open>_are_dependencies_met\<close>: the loop over \<open>task.dependencies\<close> with its two early returns.\<close>

fun dependencies_loop :: "string list \<Rightarrow> (string \<times> Task) list \<Rightarrow> bool" where
  "dependencies_loop [] ts = True"
| "dependencies_loop (dep_id # rest) ts =
     (case map_of ts dep_id of
        None \<Rightarrow> False
      | Some dep_task \<Rightarrow>
          if status dep_task \<noteq> COMPLETED then False else dependencies_loop rest ts)"

definition are_dependencies_met :: "Task \<Rightarrow> AgentOrchestrator \<Rightarrow> bool" where
  "are_dependencies_met task s = dependencies_loop (dependencies task) (tasks s)"

text \<open>
  \<open>submit_task\<close>. The fresh \<open>uuid4\<close> string and the clock reading of the dataclass
  default \<open>created_at\<close> are inputs. The task is stored first; it is put on the queue
  only when its dependencies are met, otherwise the code logs that it waits. The
  function has no \<open>raise\<close>: every path ends in \<open>return task_id\<close>, the \<open>Inr\<close> of
  the result.
\<close>

definition submit_task ::
  "string \<Rightarrow> datetime \<Rightarrow> string \<Rightarrow> string \<Rightarrow> TaskPriority \<Rightarrow> string list option \<Rightarrow>
   metadata option \<Rightarrow> AgentOrchestrator \<Rightarrow> exn + (string \<times> AgentOrchestrator)" where
  "submit_task uuid now ttype prm prio deps md s =
     (let task = \<lparr>task_id = uuid, task_type = ttype, prompt = prm, priority = prio,
                   status = PENDING, assigned_agent = None, created_at = now,
                   started_at = None, completed_at = None, result = None, error = None,
                   metadata = (case md of None \<Rightarrow> [] | Some m \<Rightarrow> m),
                   dependencies = (case deps of None \<Rightarrow> [] | Some ds \<Rightarrow> ds),
                   retry_count = 0, max_retries = 3\<rparr>;
          s1 = s\<lparr>tasks := AList.update uuid task (tasks s)\<rparr>;
          s2 = (if \<not> are_dependencies_met task s1 then s1 else queue_put uuid s1)
      in Inr (uuid, s2))"

text \<open>
  One pass of the body of \<open>_check_dependencies\<close> (the watcher runs it once a second
  while \<open>running\<close>). The pass changes no task, so the loop over the snapshot
  \<open>list(self.tasks.items())\<close> puts exactly the entries that pass the test, in store
  order.
\<close>

fun watcher_loop :: "(string \<times> Task) list \<Rightarrow> AgentOrchestrator \<Rightarrow> AgentOrchestrator" where
  "watcher_loop [] s = s"
| "watcher_loop ((k, task) # rest) s =
     (if status task = PENDING \<and> dependencies task \<noteq> [] \<and> are_dependencies_met task s
      then watcher_loop rest (queue_put k s)
      else watcher_loop rest s)"

definition check_dependencies :: "AgentOrchestrator \<Rightarrow> AgentOrchestrator" where
  "check_dependencies s = watcher_loop (tasks s) s"

section \<open>The selector\<close>

text \<open>
  The score of one agent, statement by statement: \<open>score = 0\<close>, the capability match
  (integers so far), the success rate (true division of the two counters, correctly
  rounded) times 5, twice the inverse response time, and the load-balancing penalty
  \<open>tasks_completed * 0.1\<close>, each float operation rounded.
\<close>

definition agent_score :: "(real \<Rightarrow> real) \<Rightarrow> Task \<Rightarrow> AgentInfo \<Rightarrow> real" where
  "agent_score rnd task agent =
     (let score = 0;
          score = (if task_type task \<in> set (capabilities agent) then score + 10
                   else if ''general'' \<in> set (capabilities agent) then score + 5
                   else score);
          score = (if tasks_completed agent > 0
                   then (let success_rate = rnd (real (tasks_completed agent) /
                                    real (tasks_completed agent + tasks_failed agent))
                         in rnd (score + rnd (success_rate * 5)))
                   else score);
          score = (if average_response_time agent > 0
                   then rnd (score + rnd (rnd (1 / average_response_time agent) * 2))
                   else score)
      in rnd (score - rnd (rnd (real (tasks_completed agent)) * rnd (1 / 10))))"

text \<open>The loop over \<open>agents.items()\<close> with its two \<open>continue\<close>s, building \<open>candidates\<close>.\<close>

fun candidates ::
  "(real \<Rightarrow> real) \<Rightarrow> Task \<Rightarrow> (string \<times> AgentInfo) list \<Rightarrow> (string \<times> real) list" where
  "candidates rnd task [] = []"
| "candidates rnd task ((aid, agent) # rest) =
     (if agent_status agent \<noteq> IDLE then candidates rnd task rest
      else if task_type task \<notin> set (capabilities agent) \<and> ''general'' \<notin> set (capabilities agent)
      then candidates rnd task rest
      else (aid, agent_score rnd task agent) # candidates rnd task rest)"

text \<open>
  \<open>candidates.sort(key=lambda x: x[1], reverse=True)\<close> is Python's stable sort:
  descending by score, entries of equal score keeping their order in the list. That
  is the stable insertion sort \<open>sort_key\<close> on the negated score (the negation only
  reverses the order of comparison; it is not an operation of the program).
\<close>

definition select_agent_for_task ::
  "(real \<Rightarrow> real) \<Rightarrow> Task \<Rightarrow> AgentOrchestrator \<Rightarrow> string option" where
  "select_agent_for_task rnd task s =
     (let cands = candidates rnd task (agents s) in
        if cands = [] then None
        else Some (fst (hd (sort_key (\<lambda>c. - snd c) cands))))"

section \<open>Execution, retry and metrics\<close>

text \<open>
  \<open>_update_metrics\<close>. Reading \<open>performance_metrics[provider]\<close> of the defaultdict
  yields the default entry when the provider has none (\<open>provider_metrics\<close>); the
  updated entry is stored under the provider. \<open>total_time += execution_time\<close> and
  \<open>total_time / total_tasks\<close> are float operations.
\<close>

definition provider_metrics :: "string \<Rightarrow> AgentOrchestrator \<Rightarrow> Metrics" where
  "provider_metrics prov s =
     (case map_of (performance_metrics s) prov of None \<Rightarrow> default_metrics | Some m \<Rightarrow> m)"

definition update_metrics ::
  "(real \<Rightarrow> real) \<Rightarrow> string \<Rightarrow> bool \<Rightarrow> real \<Rightarrow> AgentOrchestrator \<Rightarrow> AgentOrchestrator" where
  "update_metrics rnd prov succ t s =
     (let m = provider_metrics prov s;
          m = m\<lparr>total_tasks := total_tasks m + 1\<rparr>;
          m = (if succ then m\<lparr>successful_tasks := successful_tasks m + 1\<rparr>
               else m\<lparr>failed_tasks := failed_tasks m + 1\<rparr>);
          m = m\<lparr>total_time := rnd (total_time m + t)\<rparr>;
          m = m\<lparr>average_time := rnd (total_time m / rnd (real (total_tasks m)))\<rparr>
      in s\<lparr>performance_metrics := AList.update prov m (performance_metrics s)\<rparr>)"

text \<open>
  What the environment contributes to one call of \<open>_execute_task\<close>: whether
  \<open>await adapter.execute(...)\<close> returns a payload or raises, the measured
  \<open>execution_time\<close>, and the three readings of \<open>datetime.now()\<close> (for
  \<open>started_at\<close>, for \<open>completed_at\<close>, and for \<open>last_active\<close> in the
  \<open>finally\<close> block).
\<close>

datatype outcome = Returns payload | Raises string

record attempt =
  outcome :: outcome
  elapsed :: real
  now_started :: datetime
  now_completed :: datetime
  now_idle :: datetime

text \<open>
  \<open>_execute_task\<close> up to its \<open>await\<close>. The task object is the one stored under
  \<open>tid\<close>; an absent key cannot arise from the queue (the store never deletes) and is
  reported as a KeyError. \<open>self.agents[agent_id]\<close> raises KeyError for an unknown
  agent, and a missing adapter raises ValueError before anything is changed. Then the
  agent becomes BUSY with the task as its current task and the task IN_PROGRESS,
  assigned and started. The result carries the agent object the coroutine goes on
  with.
\<close>

definition begin_execution ::
  "attempt \<Rightarrow> string \<Rightarrow> string \<Rightarrow> AgentOrchestrator \<Rightarrow> exn + (AgentInfo \<times> AgentOrchestrator)" where
  "begin_execution att tid aid s =
     (case map_of (tasks s) tid of
        None \<Rightarrow> Inl (KeyError tid)
      | Some task \<Rightarrow>
     (case map_of (agents s) aid of
        None \<Rightarrow> Inl (KeyError aid)
      | Some agent \<Rightarrow>
     (case map_of (agent_adapters s) aid of
        None \<Rightarrow> Inl (ValueError (''No adapter found for agent '' @ aid))
      | Some ad \<Rightarrow>
          let agent = agent\<lparr>agent_status := BUSY, current_task := Some (task_id task)\<rparr>;
              task = task\<lparr>status := IN_PROGRESS, assigned_agent := Some aid,
                          started_at := Some (now_started att)\<rparr>
          in Inr (agent, s\<lparr>agents := AList.update aid agent (agents s),
                           tasks := AList.update tid task (tasks s)\<rparr>))))"

text \<open>
  \<open>_execute_task\<close> from the moment \<open>adapter.execute\<close> has returned or raised, in
  the state of that moment: the success branch or the \<open>except\<close> branch with the
  retry logic, then the \<open>finally\<close> block. \<open>agent\<close> is the agent object the
  coroutine holds; its changes reach the registry only when the object is still
  registered (\<open>att_reg\<close>). The task object is read and written in the store.
\<close>

definition complete_execution ::
  "(real \<Rightarrow> real) \<Rightarrow> attempt \<Rightarrow> string \<Rightarrow> string \<Rightarrow> AgentInfo \<Rightarrow> bool \<Rightarrow> AgentOrchestrator \<Rightarrow>
   exn + (TaskResult \<times> AgentOrchestrator)" where
  "complete_execution rnd att tid aid agent att_reg s =
     (case map_of (tasks s) tid of
        None \<Rightarrow> Inl (KeyError tid)
      | Some task \<Rightarrow>
         (case outcome att of
            Returns r \<Rightarrow>
              let task = task\<lparr>status := COMPLETED,
                                completed_at := Some (now_completed att),
                                result := Some r\<rparr>;
                  agent = agent\<lparr>tasks_completed := tasks_completed agent + 1\<rparr>;
                  agent = agent\<lparr>average_response_time :=
                            rnd (rnd (rnd (average_response_time agent *
                                             rnd (real (tasks_completed agent - 1)))
                                      + elapsed att)
                                 / rnd (real (tasks_completed agent)))\<rparr>;
                  s = update_metrics rnd (provider agent) True (elapsed att) s;
                  agent = agent\<lparr>agent_status := IDLE, current_task := None,
                                  last_active := Some (now_idle att)\<rparr>;
                  s = (if att_reg then s\<lparr>agents := AList.update aid agent (agents s)\<rparr> else s)
              in Inr (\<lparr>res_task_id = task_id task, res_agent_id = aid, success = True,
                        res_result = r, execution_time = elapsed att\<rparr>,
                      s\<lparr>tasks := AList.update tid task (tasks s)\<rparr>)
          | Raises e \<Rightarrow>
              let task = task\<lparr>status := FAILED, error := Some e,
                                completed_at := Some (now_completed att)\<rparr>;
                  agent = agent\<lparr>tasks_failed := tasks_failed agent + 1\<rparr>;
                  s = update_metrics rnd (provider agent) False (elapsed att) s;
                  (task, s) =
                    (if retry_count task < max_retries task
                     then (task\<lparr>retry_count := retry_count task + 1, status := PENDING,
                                 assigned_agent := None\<rparr>,
                           queue_put tid s)
                     else (task, s));
                  agent = agent\<lparr>agent_status := IDLE, current_task := None,
                                  last_active := Some (now_idle att)\<rparr>;
                  s = (if att_reg then s\<lparr>agents := AList.update aid agent (agents s)\<rparr> else s)
              in Inr (\<lparr>res_task_id = task_id task, res_agent_id = aid, success = False,
                        res_result = e, execution_time = elapsed att\<rparr>,
                      s\<lparr>tasks := AList.update tid task (tasks s)\<rparr>)))"

text \<open>\<open>_execute_task\<close> when nothing else runs during its \<open>await\<close>.\<close>

definition execute_task ::
  "(real \<Rightarrow> real) \<Rightarrow> attempt \<Rightarrow> string \<Rightarrow> string \<Rightarrow> AgentOrchestrator \<Rightarrow>
   exn + (TaskResult \<times> AgentOrchestrator)" where
  "execute_task rnd att tid aid s =
     (case begin_execution att tid aid s of
        Inl e \<Rightarrow> Inl e
      | Inr (agent, s) \<Rightarrow> complete_execution rnd att tid aid agent True s)"

section \<open>The worker\<close>

text \<open>
  The promotion loop of \<open>_worker\<close> after an execution: every stored task that lists
  the finished task's id among its dependencies and whose dependencies are all met is
  put on the queue. The loop tests neither the status of the promoted task nor
  whether it is queued already.
\<close>

fun promote_loop :: "string \<Rightarrow> (string \<times> Task) list \<Rightarrow> AgentOrchestrator \<Rightarrow> AgentOrchestrator" where
  "promote_loop fid [] s = s"
| "promote_loop fid ((k, other_task) # rest) s =
     (if fid \<in> set (dependencies other_task)
      then (if are_dependencies_met other_task s
            then promote_loop fid rest (queue_put k s)
            else promote_loop fid rest s)
      else promote_loop fid rest s)"

definition promote_dependents :: "string \<Rightarrow> AgentOrchestrator \<Rightarrow> AgentOrchestrator" where
  "promote_dependents fid s = promote_loop fid (tasks s) s"

text \<open>
  One iteration of the \<open>while self.running\<close> loop of \<open>_worker\<close>, up to the point
  where it is suspended in \<open>adapter.execute\<close> or, if it does not get there, to its
  end. An empty queue times out and the iteration changes nothing. With no agent
  selected (\<open>None\<close>, or an id that is falsy, the empty string) the task goes back to
  the end of the queue. Otherwise \<open>active_tasks\<close> is incremented and the execution
  begins; an exception of \<open>_execute_task\<close> is logged by the outer handler after the
  decrement. The first component is the frame of the execution that has begun, if
  one has.
\<close>

definition worker_start ::
  "(real \<Rightarrow> real) \<Rightarrow> attempt \<Rightarrow> AgentOrchestrator \<Rightarrow> frame option \<times> AgentOrchestrator" where
  "worker_start rnd att s =
     (case queue_get s of
        None \<Rightarrow> (None, s)
      | Some (tid, s) \<Rightarrow>
     (case map_of (tasks s) tid of
        None \<Rightarrow> (None, s)
      | Some task \<Rightarrow>
     (case select_agent_for_task rnd task s of
        None \<Rightarrow> (None, queue_put tid s)
      | Some aid \<Rightarrow>
          if aid = [] then (None, queue_put tid s)
          else
            let s = s\<lparr>active_tasks := active_tasks s + 1\<rparr> in
            (case begin_execution att tid aid s of
               Inl e \<Rightarrow> (None, s\<lparr>active_tasks := active_tasks s - 1\<rparr>)
             | Inr (agent, s) \<Rightarrow>
                 (Some \<lparr>frame_task = tid, frame_agent_id = aid, frame_agent = agent,
                        attached = True\<rparr>, s)))))"

text \<open>
  The rest of the iteration once the adapter has returned or raised: the second half
  of \<open>_execute_task\<close>, the promotion of the tasks that depend on the executed one
  (\<open>task.id\<close>, which the result carries), and the decrement of \<open>active_tasks\<close>.
\<close>

definition worker_finish ::
  "(real \<Rightarrow> real) \<Rightarrow> attempt \<Rightarrow> frame \<Rightarrow> AgentOrchestrator \<Rightarrow> AgentOrchestrator" where
  "worker_finish rnd att fr s =
     (case complete_execution rnd att (frame_task fr) (frame_agent_id fr) (frame_agent fr)
             (attached fr) s of
        Inl e \<Rightarrow> s\<lparr>active_tasks := active_tasks s - 1\<rparr>
      | Inr (res, s) \<Rightarrow>
          let s = promote_dependents (res_task_id res) s
          in s\<lparr>active_tasks := active_tasks s - 1\<rparr>)"

text \<open>A whole iteration with nothing else running during the \<open>await\<close>.\<close>

definition worker :: "(real \<Rightarrow> real) \<Rightarrow> attempt \<Rightarrow> AgentOrchestrator \<Rightarrow> AgentOrchestrator" where
  "worker rnd att s =
     (case worker_start rnd att s of
        (None, s) \<Rightarrow> s
      | (Some fr, s) \<Rightarrow> worker_finish rnd att fr s)"

text \<open>
  Whether an iteration begun in state \<open>s\<close> starts an execution of the task stored
  under \<open>tid\<close>, that is, calls the adapter for it.
\<close>

definition starts :: "(real \<Rightarrow> real) \<Rightarrow> attempt \<Rightarrow> string \<Rightarrow> AgentOrchestrator \<Rightarrow> bool" where
  "starts rnd att tid s =
     (case fst (worker_start rnd att s) of
        None \<Rightarrow> False
      | Some fr \<Rightarrow> frame_task fr = tid)"

section \<open>The orchestrator as a transition system\<close>

text \<open>
  The coroutines of the orchestrator and the calls of its clients, one event per piece
  that runs without suspension. A client registers or unregisters an agent or submits
  a task (inside the running event loop, as the HTTP handlers do); the dependency
  watcher runs one pass; the event loop runs a scheduled put; a worker runs an
  iteration up to its \<open>await\<close> (\<open>Start\<close>); the \<open>n\<close>-th suspended execution gets
  its outcome and runs to the end of its iteration (\<open>Finish n\<close>). \<open>Work\<close> is
  an iteration during whose \<open>await\<close> nothing else runs.
  Rebinding or deleting \<open>agents[aid]\<close> leaves the suspended executions on that id
  with an object the registry no longer holds (\<open>detach\<close>).
\<close>

datatype event =
    Register string string string "string list" "adapter option"
  | Unregister string
  | Submit string datetime string TaskPriority "string list option"
  | Work attempt
  | Watch
  | Start attempt
  | Finish nat attempt
  | Deliver

definition detach :: "string \<Rightarrow> AgentOrchestrator \<Rightarrow> AgentOrchestrator" where
  "detach aid s =
     s\<lparr>frames := map (\<lambda>fr. if frame_agent_id fr = aid then fr\<lparr>attached := False\<rparr> else fr)
                      (frames s)\<rparr>"

fun step :: "(real \<Rightarrow> real) \<Rightarrow> event \<Rightarrow> AgentOrchestrator \<Rightarrow> AgentOrchestrator" where
  "step rnd (Register aid nm prov caps ad) s =
     snd (register_agent aid nm prov caps ad None (detach aid s))"
| "step rnd (Unregister aid) s =
     (if aid \<in> fst ` set (agents s) then snd (unregister_agent True aid (detach aid s))
      else snd (unregister_agent True aid s))"
| "step rnd (Submit uuid now ttype prio deps) s =
     (case submit_task uuid now ttype [] prio deps None s of Inl e \<Rightarrow> s | Inr (t, s') \<Rightarrow> s')"
| "step rnd (Work att) s = worker rnd att s"
| "step rnd Watch s = check_dependencies s"
| "step rnd (Start att) s =
     (case worker_start rnd att s of
        (None, s') \<Rightarrow> s'
      | (Some fr, s') \<Rightarrow> s'\<lparr>frames := frames s' @ [fr]\<rparr>)"
| "step rnd (Finish n att) s =
     (if n < length (frames s)
      then worker_finish rnd att (frames s ! n)
             (s\<lparr>frames := take n (frames s) @ drop (Suc n) (frames s)\<rparr>)
      else s)"
| "step rnd Deliver s = run_scheduled_put s"

fun run :: "(real \<Rightarrow> real) \<Rightarrow> event list \<Rightarrow> AgentOrchestrator \<Rightarrow> AgentOrchestrator" where
  "run rnd [] s = s"
| "run rnd (e # es) s = run rnd es (step rnd e s)"

text \<open>How often a run starts an execution of the task stored under \<open>tid\<close>.\<close>

fun executions :: "(real \<Rightarrow> real) \<Rightarrow> string \<Rightarrow> event list \<Rightarrow> AgentOrchestrator \<Rightarrow> nat" where
  "executions rnd tid [] s = 0"
| "executions rnd tid (e # es) s =
     (case e of
        Work att \<Rightarrow> (if starts rnd att tid s then 1 else 0)
      | Start att \<Rightarrow> (if starts rnd att tid s then 1 else 0)
      | _ \<Rightarrow> 0) + executions rnd tid es (step rnd e s)"

section \<open>The selector as the specification words it\<close>

text \<open>
  Eligibility and score in the wording of the specification, to be compared with
  \<open>candidates\<close> and \<open>agent_score\<close> above: an agent is eligible when it is IDLE and
  its capabilities contain the task type or "general"; the score is +10 for an explicit
  match, else +5 for a "general" match, plus success rate times 5 when something was
  completed, plus twice the inverse average response time when that is positive, minus
  0.1 per completed task. The terms are added from left to right in float arithmetic
  (\<open>fl_plus\<close>, \<open>fl_minus\<close>, \<open>fl_times\<close>, \<open>fl_divide\<close>: the exact operation,
  rounded); a term that does not apply is not added.
\<close>

definition fl_plus :: "(real \<Rightarrow> real) \<Rightarrow> real \<Rightarrow> real \<Rightarrow> real" where
  "fl_plus rnd a b = rnd (a + b)"

definition fl_minus :: "(real \<Rightarrow> real) \<Rightarrow> real \<Rightarrow> real \<Rightarrow> real" where
  "fl_minus rnd a b = rnd (a - b)"

definition fl_times :: "(real \<Rightarrow> real) \<Rightarrow> real \<Rightarrow> real \<Rightarrow> real" where
  "fl_times rnd a b = rnd (a * b)"

definition fl_divide :: "(real \<Rightarrow> real) \<Rightarrow> real \<Rightarrow> real \<Rightarrow> real" where
  "fl_divide rnd a b = rnd (a / b)"

definition spec_eligible :: "Task \<Rightarrow> AgentInfo \<Rightarrow> bool" where
  "spec_eligible task agent \<longleftrightarrow>
     agent_status agent = IDLE \<and>
     (task_type task \<in> set (capabilities agent) \<or> ''general'' \<in> set (capabilities agent))"

definition spec_score :: "(real \<Rightarrow> real) \<Rightarrow> Task \<Rightarrow> AgentInfo \<Rightarrow> real" where
  "spec_score rnd task agent =
     (let completed = tasks_completed agent;
          failed = tasks_failed agent;
          match = (if task_type task \<in> set (capabilities agent) then 10
                   else if ''general'' \<in> set (capabilities agent) then 5 else 0);
          with_rate =
            (if completed > 0
             then fl_plus rnd match
                    (fl_times rnd (fl_divide rnd (real completed) (real (completed + failed))) 5)
             else match);
          with_time =
            (if average_response_time agent > 0
             then fl_plus rnd with_rate
                    (fl_times rnd (fl_divide rnd 1 (average_response_time agent)) 2)
             else with_rate)
      in fl_minus rnd with_time (fl_times rnd (rnd (real completed)) (rnd (1 / 10))))"

section \<open>The metrics identity as the specification words it\<close>

text \<open>
  For one provider's record: the total is the sum of the successes and the failures,
  and the average time is the total time divided by the total, as the float division
  gives it.
\<close>

definition spec_metrics_identity :: "(real \<Rightarrow> real) \<Rightarrow> Metrics \<Rightarrow> bool" where
  "spec_metrics_identity rnd m \<longleftrightarrow>
     total_tasks m = successful_tasks m + failed_tasks m \<and>
     average_time m = fl_divide rnd (total_time m) (rnd (real (total_tasks m)))"

section \<open>Bookkeeping for the retry bound\<close>

text \<open>
  Notions used only to state the inductive invariants behind the retry bound. A task
  is \<open>tracked\<close> in a state when the store has no duplicate keys and holds the task
  without prerequisites and with no more retries used than it may use. Its
  \<open>retry_budget\<close> is the number of retries it has left plus the number of its
  entries in the queue and among the scheduled puts.
\<close>

definition tracked :: "string \<Rightarrow> AgentOrchestrator \<Rightarrow> bool" where
  "tracked tid s \<longleftrightarrow>
     distinct (map fst (tasks s)) \<and>
     (\<exists>t. map_of (tasks s) tid = Some t \<and> dependencies t = [] \<and>
          retry_count t \<le> max_retries t)"

definition retry_budget :: "string \<Rightarrow> AgentOrchestrator \<Rightarrow> nat" where
  "retry_budget tid s =
     (case map_of (tasks s) tid of None \<Rightarrow> 0 | Some t \<Rightarrow> max_retries t - retry_count t)
     + count_list (task_queue s) tid + count_list (scheduled_puts s) tid"

text \<open>
  An id is \<open>unseen\<close> in a state when the store has no duplicate keys and the id is
  neither a key of the store nor in the queue nor among the scheduled puts: the
  situation of a fresh \<open>uuid4\<close> id before its submission.
\<close>

definition unseen :: "string \<Rightarrow> AgentOrchestrator \<Rightarrow> bool" where
  "unseen tid s \<longleftrightarrow>
     distinct (map fst (tasks s)) \<and> tid \<notin> fst ` set (tasks s) \<and>
     tid \<notin> set (task_queue s) \<and> tid \<notin> set (scheduled_puts s)"

section \<open>Concrete scenarios\<close>

text \<open>
  Two attempts, one returning and one raising, a task to probe the selector with, and
  the rounding that rounds nothing, used where the displayed results do not depend on
  the rounding.
\<close>

definition exact :: "real \<Rightarrow> real" where
  "exact x = x"

definition attempt_ok :: attempt where
  "attempt_ok =
     \<lparr>outcome = Returns ''ok'', elapsed = 2, now_started = 10, now_completed = 12, now_idle = 13\<rparr>"

definition attempt_raise :: attempt where
  "attempt_raise =
     \<lparr>outcome = Raises ''boom'', elapsed = 1, now_started = 20, now_completed = 21, now_idle = 22\<rparr>"

definition probe_task :: Task where
  "probe_task =
     \<lparr>task_id = ''probe'', task_type = ''analysis'', prompt = ''p'', priority = MEDIUM,
      status = PENDING, assigned_agent = None, created_at = 0, started_at = None,
      completed_at = None, result = None, error = None, metadata = [], dependencies = [],
      retry_count = 0, max_retries = 3\<rparr>"

text \<open>
  A state with an execution in flight: agent \<open>a\<close> is registered, \<open>t1\<close> and \<open>t2\<close>
  are submitted, and a worker has started \<open>t1\<close> on \<open>a\<close> and is suspended in the
  adapter: \<open>a\<close> is BUSY with \<open>t1\<close>, \<open>t1\<close> is IN_PROGRESS, \<open>t2\<close> waits in the
  queue.
\<close>

definition in_flight :: AgentOrchestrator where
  "in_flight =
     run exact [Register ''a'' ''A'' ''openai'' [''general''] (Some 1),
                Submit ''t1'' 0 ''analysis'' MEDIUM None,
                Submit ''t2'' 1 ''analysis'' MEDIUM None,
                Start attempt_ok] (init 10)"

section \<open>Properties\<close>

subsection \<open>Registration\<close>

lemma agents_register_agent:
  "agents (snd (register_agent aid nm prov caps adapter md s)) =
     AList.update aid (fst (register_agent aid nm prov caps adapter md s)) (agents s)"
  by (simp add: register_agent_def Let_def split: option.split)

text \<open>
  C10. Whatever the registry held before (in particular when \<open>aid\<close> is already
  registered, with any status, current task and statistics), \<open>register_agent\<close>
  returns a freshly built record that is IDLE, has no current task, zero counters and
  average response time 0, and that record is what the registry holds under \<open>aid\<close>
  afterwards: nothing of the previous record survives.
\<close>

theorem register_agent_fresh:
  "(let r = register_agent aid nm prov caps adapter md s; a = fst r in
      agent_status a = IDLE \<and> current_task a = None \<and> tasks_completed a = 0 \<and>
      tasks_failed a = 0 \<and> average_response_time a = 0 \<and> last_active a = None \<and>
      agent_id a = aid \<and> name a = nm \<and> provider a = prov \<and> capabilities a = caps \<and>
      map_of (agents (snd r)) aid = Some a \<and>
      fst (register_agent aid nm prov caps adapter md s) =
        fst (register_agent aid nm prov caps adapter md s'))"
  by (simp add: Let_def agents_register_agent update_conv') (simp add: register_agent_def Let_def)

subsection \<open>The selector\<close>

lemma candidates_eq:
  "candidates rnd task ags =
     map (\<lambda>(k, a). (k, agent_score rnd task a))
       (filter (\<lambda>(k, a). agent_status a = IDLE \<and>
          (task_type task \<in> set (capabilities a) \<or> ''general'' \<in> set (capabilities a))) ags)"
  by (induction rnd task ags rule: candidates.induct) simp_all

lemma hd_insort_key:
  "hd (insort_key f x ys) = (if ys = [] \<or> f x \<le> f (hd ys) then x else hd ys)"
  by (cases ys) auto

lemma sort_key_Nil_iff: "sort_key f xs = [] \<longleftrightarrow> xs = []"
  by (metis length_sort length_0_conv)

lemma hd_sort_key_first_best:
  fixes f :: "'a \<Rightarrow> 'b::linorder"
  shows "xs \<noteq> [] \<Longrightarrow>
    \<exists>us vs. xs = us @ hd (sort_key f xs) # vs \<and>
      (\<forall>u\<in>set us. f (hd (sort_key f xs)) < f u) \<and>
      (\<forall>v\<in>set vs. f (hd (sort_key f xs)) \<le> f v)"
proof (induction xs)
  case Nil
  then show ?case by simp
next
  case (Cons x xs)
  show ?case
  proof (cases "xs = []")
    case True
    then have "x # xs = [] @ hd (sort_key f (x # xs)) # []" by simp
    then show ?thesis by (metis empty_iff list.set(1))
  next
    case False
    let ?w = "hd (sort_key f xs)"
    from Cons.IH [OF False] obtain us vs where
      xs: "xs = us @ ?w # vs" and lt: "\<forall>u\<in>set us. f ?w < f u" and le: "\<forall>v\<in>set vs. f ?w \<le> f v"
      by blast
    have ne: "sort_key f xs \<noteq> []" using False by (simp add: sort_key_Nil_iff)
    show ?thesis
    proof (cases "f x \<le> f ?w")
      case True
      then have hd: "hd (sort_key f (x # xs)) = x"
        by (simp add: hd_insort_key)
      have "\<forall>v\<in>set xs. f x \<le> f v"
      proof
        fix v assume "v \<in> set xs"
        then have "v \<in> set us \<or> v = ?w \<or> v \<in> set vs" using xs
          by (metis Un_iff set_ConsD set_append)
        then show "f x \<le> f v" using True lt le by force
      qed
      then have "x # xs = [] @ x # xs \<and> (\<forall>u\<in>set []. f x < f u) \<and> (\<forall>v\<in>set xs. f x \<le> f v)"
        by simp
      then show ?thesis unfolding hd by blast
    next
      case False
      then have hd: "hd (sort_key f (x # xs)) = ?w"
        using ne by (simp add: hd_insort_key)
      have "x # xs = (x # us) @ ?w # vs" using xs by simp
      moreover have "\<forall>u\<in>set (x # us). f ?w < f u" using False lt by auto
      ultimately show ?thesis unfolding hd using le by blast
    qed
  qed
qed

lemma insort_key_map:
  "insort_key f (g x) (map g ys) = map g (insort_key (\<lambda>a. f (g a)) x ys)"
  by (induction ys) auto

lemma sort_key_map: "sort_key f (map g xs) = map g (sort_key (\<lambda>a. f (g a)) xs)"
  by (induction xs) (auto simp: insort_key_map)


lemma agent_score_spec: "agent_score rnd task agent = spec_score rnd task agent"
  by (simp add: agent_score_def spec_score_def fl_plus_def fl_minus_def fl_times_def
      fl_divide_def Let_def)

lemma candidates_spec:
  "candidates rnd task ags =
     map (\<lambda>(k, a). (k, spec_score rnd task a)) (filter (\<lambda>(k, a). spec_eligible task a) ags)"
  by (simp add: candidates_eq spec_eligible_def agent_score_spec)

lemma select_eq:
  "select_agent_for_task rnd task s =
     (let el = filter (\<lambda>(k, a). spec_eligible task a) (agents s) in
      if el = [] then None
      else Some (fst (hd (sort_key (\<lambda>p. - spec_score rnd task (snd p)) el))))"
  by (simp add: select_agent_for_task_def candidates_spec Let_def
        sort_key_map hd_map sort_key_Nil_iff split_beta)

lemma select_first_best:
  assumes "select_agent_for_task rnd task s = Some aid"
  shows "\<exists>us a vs. filter (\<lambda>(k, a). spec_eligible task a) (agents s) = us @ (aid, a) # vs \<and>
           (\<forall>(k, b)\<in>set us. spec_score rnd task b < spec_score rnd task a) \<and>
           (\<forall>(k, b)\<in>set vs. spec_score rnd task b \<le> spec_score rnd task a)"
proof -
  let ?el = "filter (\<lambda>(k, a). spec_eligible task a) (agents s)"
  let ?f = "\<lambda>p::string \<times> AgentInfo. - spec_score rnd task (snd p)"
  let ?w = "hd (sort_key ?f ?el)"
  from assms have ne: "?el \<noteq> []" and w: "fst ?w = aid"
    by (auto simp: select_eq Let_def split: if_splits)
  from hd_sort_key_first_best [OF ne, of ?f] obtain us vs where
    el: "?el = us @ ?w # vs" and lt: "\<forall>u\<in>set us. ?f ?w < ?f u" and le: "\<forall>v\<in>set vs. ?f ?w \<le> ?f v"
    by blast
  have "?w = (aid, snd ?w)" using w by (metis prod.collapse)
  with el have "?el = us @ (aid, snd ?w) # vs" by simp
  moreover have "\<forall>(k, b)\<in>set us. spec_score rnd task b < spec_score rnd task (snd ?w)"
    using lt by auto
  moreover have "\<forall>(k, b)\<in>set vs. spec_score rnd task b \<le> spec_score rnd task (snd ?w)"
    using le by auto
  ultimately show ?thesis by blast
qed

lemma select_None_iff:
  "select_agent_for_task rnd task s = None \<longleftrightarrow> filter (\<lambda>(k, a). spec_eligible task a) (agents s) = []"
  by (simp add: select_eq Let_def)


text \<open>
  C5, as the code has it. The selector reads only the task and the agent registry. It
  returns None exactly when no agent is eligible. Otherwise it returns the first agent,
  in the registry's insertion order, among the eligible agents whose computed score is
  maximal: every eligible agent registered before the chosen one has a strictly smaller
  computed score, every one registered after it has no greater one. The scores are the
  doubles the float operations yield, whatever their rounding. The agent id plays no
  part in breaking a tie.
\<close>

theorem select_agent_registration_order:
  "(select_agent_for_task rnd task s = None \<longleftrightarrow>
      filter (\<lambda>(k, a). spec_eligible task a) (agents s) = []) \<and>
   (\<forall>aid. select_agent_for_task rnd task s = Some aid \<longrightarrow>
      (\<exists>us a vs. filter (\<lambda>(k, a). spec_eligible task a) (agents s) = us @ (aid, a) # vs \<and>
         (\<forall>(k, b)\<in>set us. spec_score rnd task b < spec_score rnd task a) \<and>
         (\<forall>(k, b)\<in>set vs. spec_score rnd task b \<le> spec_score rnd task a))) \<and>
   (\<forall>s'. agents s' = agents s \<longrightarrow> select_agent_for_task rnd task s' = select_agent_for_task rnd task s)"
  using select_first_best [of rnd task s] select_None_iff [of rnd task s]
  by (auto simp: select_agent_for_task_def)

theorem select_agent_registration_order_witness:
  "select_agent_for_task exact probe_task
     (run exact [Register ''b'' ''B'' ''openai'' [''analysis''] (Some 1),
           Register ''a'' ''A'' ''google'' [''analysis''] (Some 2)] (init 10)) = Some ''b'' \<and>
   (\<exists>us a vs.
      filter (\<lambda>(k, a). spec_eligible probe_task a)
        (agents (run exact [Register ''b'' ''B'' ''openai'' [''analysis''] (Some 1),
                      Register ''a'' ''A'' ''google'' [''analysis''] (Some 2)] (init 10)))
        = us @ (''b'', a) # vs)"
proof -
  let ?s = "run exact [Register ''b'' ''B'' ''openai'' [''analysis''] (Some 1),
                 Register ''a'' ''A'' ''google'' [''analysis''] (Some 2)] (init 10)"
  have sel: "select_agent_for_task exact probe_task ?s = Some ''b''"
    by code_simp
  from select_agent_registration_order [of exact probe_task ?s] sel show ?thesis
    by blast
qed

text \<open>
  The claim as stated fails: with \<open>b\<close> registered before \<open>a\<close>, both IDLE, both
  eligible and both scoring 10 (\<open>0 + 10\<close>, minus \<open>0 * 0.1\<close>, which doubles
  compute exactly), the selector returns \<open>b\<close>, not the lexicographically smaller
  \<open>a\<close>.
\<close>

theorem select_agent_lexicographic_counterexample:
  "candidates exact probe_task
     (agents (run exact [Register ''b'' ''B'' ''openai'' [''analysis''] (Some 1),
                   Register ''a'' ''A'' ''google'' [''analysis''] (Some 2)] (init 10)))
     = [(''b'', 10), (''a'', 10)] \<and>
   select_agent_for_task exact probe_task
     (run exact [Register ''b'' ''B'' ''openai'' [''analysis''] (Some 1),
           Register ''a'' ''A'' ''google'' [''analysis''] (Some 2)] (init 10)) = Some ''b''"
  by code_simp

text \<open>
  C6. Whatever the rounding of the float operations, the candidates are exactly the
  registry entries that are eligible in the specification's sense, each paired with the
  specification's score as float arithmetic computes it; the selector returns None
  exactly when there is none, and otherwise returns the id of an eligible registered
  agent whose computed score no eligible agent's computed score exceeds.
\<close>

theorem select_agent_highest_score:
  "candidates rnd task (agents s) =
     map (\<lambda>(k, a). (k, spec_score rnd task a)) (filter (\<lambda>(k, a). spec_eligible task a) (agents s)) \<and>
   (select_agent_for_task rnd task s = None \<longleftrightarrow>
      (\<forall>(k, a)\<in>set (agents s). \<not> spec_eligible task a)) \<and>
   (\<forall>aid. select_agent_for_task rnd task s = Some aid \<longrightarrow>
      (\<exists>a. (aid, a) \<in> set (agents s) \<and> spec_eligible task a \<and>
         (\<forall>(k, b)\<in>set (agents s). spec_eligible task b \<longrightarrow>
            spec_score rnd task b \<le> spec_score rnd task a)))"
proof (intro conjI allI impI)
  show "candidates rnd task (agents s) =
     map (\<lambda>(k, a). (k, spec_score rnd task a)) (filter (\<lambda>(k, a). spec_eligible task a) (agents s))"
    by (rule candidates_spec)
  show "select_agent_for_task rnd task s = None \<longleftrightarrow>
      (\<forall>(k, a)\<in>set (agents s). \<not> spec_eligible task a)"
    by (auto simp: select_None_iff filter_empty_conv)
next
  fix aid assume "select_agent_for_task rnd task s = Some aid"
  from select_first_best [OF this] obtain us a vs where
    el: "filter (\<lambda>(k, a). spec_eligible task a) (agents s) = us @ (aid, a) # vs" and
    lt: "\<forall>(k, b)\<in>set us. spec_score rnd task b < spec_score rnd task a" and
    le: "\<forall>(k, b)\<in>set vs. spec_score rnd task b \<le> spec_score rnd task a"
    by blast
  have mem: "(aid, a) \<in> set (filter (\<lambda>(k, a). spec_eligible task a) (agents s))"
    unfolding el by simp
  have best: "spec_score rnd task b \<le> spec_score rnd task a"
    if "(k, b) \<in> set (agents s)" "spec_eligible task b" for k b
  proof -
    from that have "(k, b) \<in> set (filter (\<lambda>(k, a). spec_eligible task a) (agents s))" by simp
    then have "(k, b) \<in> set us \<or> (k, b) = (aid, a) \<or> (k, b) \<in> set vs"
      unfolding el by auto
    then show ?thesis using lt le by force
  qed
  show "\<exists>a. (aid, a) \<in> set (agents s) \<and> spec_eligible task a \<and>
         (\<forall>(k, b)\<in>set (agents s). spec_eligible task b \<longrightarrow>
            spec_score rnd task b \<le> spec_score rnd task a)"
    using mem best by (intro exI [of _ a]) auto
qed


theorem select_agent_highest_score_witness:
  "select_agent_for_task exact probe_task
     (run exact [Register ''g'' ''G'' ''google'' [''general''] (Some 1),
           Register ''c'' ''C'' ''anthropic'' [''analysis'', ''code_generation''] (Some 2),
           Register ''d'' ''D'' ''xai'' [''documentation''] (Some 3)] (init 10)) = Some ''c'' \<and>
   (\<exists>a. (''c'', a) \<in> set (agents
      (run exact [Register ''g'' ''G'' ''google'' [''general''] (Some 1),
            Register ''c'' ''C'' ''anthropic'' [''analysis'', ''code_generation''] (Some 2),
            Register ''d'' ''D'' ''xai'' [''documentation''] (Some 3)] (init 10))) \<and>
      spec_eligible probe_task a)"
proof -
  let ?s = "run exact [Register ''g'' ''G'' ''google'' [''general''] (Some 1),
           Register ''c'' ''C'' ''anthropic'' [''analysis'', ''code_generation''] (Some 2),
           Register ''d'' ''D'' ''xai'' [''documentation''] (Some 3)] (init 10)"
  have sel: "select_agent_for_task exact probe_task ?s = Some ''c''"
    by code_simp
  from select_agent_highest_score [of exact probe_task ?s] sel show ?thesis
    by blast
qed

subsection \<open>Basic facts about the queue and the loops\<close>

lemma tasks_queue_put [simp]: "tasks (queue_put k s) = tasks s"
  by (simp add: queue_put_def)

lemma task_queue_queue_put [simp]: "task_queue (queue_put k s) = task_queue s @ [k]"
  by (simp add: queue_put_def)

lemma are_dependencies_met_queue_put [simp]:
  "are_dependencies_met t (queue_put k s) = are_dependencies_met t s"
  by (simp add: are_dependencies_met_def queue_put_def)

lemma queue_put_other_fields [simp]:
  "scheduled_puts (queue_put k s) = scheduled_puts s"
  "frames (queue_put k s) = frames s"
  "performance_metrics (queue_put k s) = performance_metrics s"
  "agents (queue_put k s) = agents s"
  "agent_adapters (queue_put k s) = agent_adapters s"
  by (simp_all add: queue_put_def)

lemma task_queue_fold_put: "task_queue (fold queue_put tids s) = task_queue s @ tids"
  by (induction tids arbitrary: s) (simp_all add: queue_put_def)

lemma dequeue_order_take: "dequeue_order n s = take n (task_queue s)"
  by (induction n arbitrary: s) (auto simp: queue_get_def split: list.splits)

lemma map_update_same:
  "map_of ts k = Some v \<Longrightarrow> f v' = f v \<Longrightarrow>
   map (\<lambda>(k, t). (k, f t)) (AList.update k v' ts) = map (\<lambda>(k, t). (k, f t)) ts"
  by (induction ts) (auto split: if_splits)

lemma dependencies_loop_iff:
  "dependencies_loop ds ts \<longleftrightarrow> (\<forall>d\<in>set ds. \<exists>t. map_of ts d = Some t \<and> status t = COMPLETED)"
  by (induction ds) (auto split: option.splits)

lemma dependencies_loop_missing:
  "d \<in> set ds \<Longrightarrow> map_option status (map_of ts d) \<noteq> Some COMPLETED \<Longrightarrow>
   \<not> dependencies_loop ds ts"
  by (auto simp: dependencies_loop_iff)

lemma watcher_loop_tasks [simp]: "tasks (watcher_loop ts s) = tasks s"
  by (induction ts s rule: watcher_loop.induct) simp_all

lemma watcher_loop_queue:
  "task_queue (watcher_loop ts s) =
     task_queue s @ map fst (filter (\<lambda>(k, t). status t = PENDING \<and> dependencies t \<noteq> [] \<and>
                                        are_dependencies_met t s) ts)"
  by (induction ts s rule: watcher_loop.induct) simp_all

lemma promote_loop_tasks [simp]: "tasks (promote_loop fid ts s) = tasks s"
  by (induction fid ts s rule: promote_loop.induct) simp_all

lemma promote_loop_queue:
  "task_queue (promote_loop fid ts s) =
     task_queue s @ map fst (filter (\<lambda>(k, t). fid \<in> set (dependencies t) \<and>
                                        are_dependencies_met t s) ts)"
  by (induction fid ts s rule: promote_loop.induct) simp_all

lemma watcher_loop_other_fields [simp]:
  "scheduled_puts (watcher_loop ts s) = scheduled_puts s"
  "frames (watcher_loop ts s) = frames s"
  "performance_metrics (watcher_loop ts s) = performance_metrics s"
  by (induction ts s rule: watcher_loop.induct) simp_all

lemma promote_loop_other_fields [simp]:
  "scheduled_puts (promote_loop fid ts s) = scheduled_puts s"
  "frames (promote_loop fid ts s) = frames s"
  "performance_metrics (promote_loop fid ts s) = performance_metrics s"
  by (induction fid ts s rule: promote_loop.induct) simp_all

lemma requeue_held_loop:
  "requeue_held True aid ts =
     (None,
      map (\<lambda>(k, t). (k, if held_by aid t then t\<lparr>status := PENDING, assigned_agent := None\<rparr> else t)) ts,
      map fst (filter (\<lambda>(k, t). held_by aid t) ts))"
  by (induction ts) (auto simp: Let_def)

lemma map_of_delete_same: "map_of (AList.delete k al) k = None"
  by (simp add: delete_conv')

lemma run_scheduled_puts_all:
  "task_queue ((run_scheduled_put ^^ length (scheduled_puts s)) s)
     = task_queue s @ scheduled_puts s"
proof (induction "scheduled_puts s" arbitrary: s)
  case Nil
  then show ?case by simp
next
  case (Cons tid rest)
  let ?s1 = "run_scheduled_put s"
  have s1: "scheduled_puts ?s1 = rest" "task_queue ?s1 = task_queue s @ [tid]"
    using Cons.hyps(2) [symmetric] by (simp_all add: run_scheduled_put_def)
  have "(run_scheduled_put ^^ length (scheduled_puts s)) s
          = (run_scheduled_put ^^ length (scheduled_puts ?s1)) ?s1"
    using Cons.hyps(2) [symmetric] s1(1) by (simp add: funpow_swap1)
  also have "task_queue \<dots> = task_queue ?s1 @ scheduled_puts ?s1"
    by (rule Cons.hyps(1)) (simp add: s1(1))
  finally show ?case using s1 Cons.hyps(2) [symmetric] by simp
qed

lemma begin_execution_Inr:
  assumes "begin_execution att tid aid s = Inr (agent, s')"
  shows "\<exists>t0 a0. map_of (tasks s) tid = Some t0 \<and> map_of (agents s) aid = Some a0 \<and>
           map_of (agent_adapters s) aid \<noteq> None \<and>
           agent = a0\<lparr>agent_status := BUSY, current_task := Some (task_id t0)\<rparr> \<and>
           s' = s\<lparr>agents := AList.update aid agent (agents s),
                  tasks := AList.update tid
                    (t0\<lparr>status := IN_PROGRESS, assigned_agent := Some aid,
                        started_at := Some (now_started att)\<rparr>) (tasks s)\<rparr>"
  using assms by (auto simp: begin_execution_def Let_def split: option.splits)

lemma isl_begin_execution:
  "isl (begin_execution att tid aid s) \<longleftrightarrow>
     map_of (tasks s) tid = None \<or> map_of (agents s) aid = None \<or>
     map_of (agent_adapters s) aid = None"
  by (simp add: begin_execution_def Let_def split: option.split)

lemma update_metrics_fields [simp]:
  "tasks (update_metrics rnd prov b t s) = tasks s"
  "agents (update_metrics rnd prov b t s) = agents s"
  "task_queue (update_metrics rnd prov b t s) = task_queue s"
  "agent_adapters (update_metrics rnd prov b t s) = agent_adapters s"
  "active_tasks (update_metrics rnd prov b t s) = active_tasks s"
  "scheduled_puts (update_metrics rnd prov b t s) = scheduled_puts s"
  "frames (update_metrics rnd prov b t s) = frames s"
  by (simp_all add: update_metrics_def Let_def)

lemma complete_execution_Inr:
  assumes "complete_execution rnd att tid aid agent b s = Inr (res, s')"
  shows "\<exists>t0 t'. map_of (tasks s) tid = Some t0 \<and> tasks s' = AList.update tid t' (tasks s) \<and>
           res_task_id res = task_id t0 \<and>
           dependencies t' = dependencies t0 \<and> max_retries t' = max_retries t0 \<and>
           priority t' = priority t0 \<and> created_at t' = created_at t0 \<and>
           scheduled_puts s' = scheduled_puts s \<and> frames s' = frames s \<and>
           (if retry_count t' = retry_count t0 then task_queue s' = task_queue s
            else retry_count t0 < max_retries t0 \<and> retry_count t' = Suc (retry_count t0) \<and>
                 task_queue s' = task_queue s @ [tid])"
  using assms
  by (auto simp: complete_execution_def Let_def
      split: option.splits outcome.splits if_splits)

lemma complete_execution_Raises:
  assumes "map_of (tasks s) tid = Some t" and "outcome att = Raises e"
    and "complete_execution rnd att tid aid agent b s = Inr (res, s')"
  shows "\<exists>t'. map_of (tasks s') tid = Some t' \<and>
           (if retry_count t < max_retries t
            then retry_count t' = retry_count t + 1 \<and> status t' = PENDING \<and>
                 assigned_agent t' = None \<and> task_queue s' = task_queue s @ [tid]
            else retry_count t' = retry_count t \<and> status t' = FAILED \<and>
                 task_queue s' = task_queue s)"
  using assms
  by (auto simp: complete_execution_def Let_def update_conv'
      split: option.splits if_splits)

subsection \<open>One worker iteration, in its two halves\<close>

lemma worker_start_effect:
  "(task_queue s = [] \<and> worker_start rnd att s = (None, s)) \<or>
   (\<exists>h q. task_queue s = h # q \<and>
      scheduled_puts (snd (worker_start rnd att s)) = scheduled_puts s \<and>
      frames (snd (worker_start rnd att s)) = frames s \<and>
      performance_metrics (snd (worker_start rnd att s)) = performance_metrics s \<and>
      (case fst (worker_start rnd att s) of
         None \<Rightarrow>
           tasks (snd (worker_start rnd att s)) = tasks s \<and>
           (task_queue (snd (worker_start rnd att s)) = q \<or>
            task_queue (snd (worker_start rnd att s)) = q @ [h])
       | Some fr \<Rightarrow>
           frame_task fr = h \<and> task_queue (snd (worker_start rnd att s)) = q \<and>
           (\<exists>t0. map_of (tasks s) h = Some t0 \<and>
              tasks (snd (worker_start rnd att s)) =
                AList.update h (t0\<lparr>status := IN_PROGRESS,
                                   assigned_agent := Some (frame_agent_id fr),
                                   started_at := Some (now_started att)\<rparr>) (tasks s))))"
proof (cases "task_queue s")
  case Nil
  then show ?thesis by (simp add: worker_start_def queue_get_def)
next
  case (Cons h q)
  let ?s1 = "s\<lparr>task_queue := q\<rparr>"
  show ?thesis
  proof (cases "map_of (tasks s) h")
    case None
    then show ?thesis using Cons by (simp add: worker_start_def queue_get_def)
  next
    case (Some task)
    show ?thesis
    proof (cases "select_agent_for_task rnd task ?s1")
      case None
      then show ?thesis using Cons Some
        by (simp add: worker_start_def queue_get_def queue_put_def)
    next
      case sel: (Some aid)
      show ?thesis
      proof (cases "aid = []")
        case True
        then show ?thesis using Cons Some sel
          by (simp add: worker_start_def queue_get_def queue_put_def)
      next
        case False
        let ?s2 = "?s1\<lparr>active_tasks := active_tasks ?s1 + 1\<rparr>"
        show ?thesis
        proof (cases "begin_execution att h aid ?s2")
          case (Inl e)
          then show ?thesis using Cons Some sel False
            by (simp add: worker_start_def queue_get_def Let_def)
        next
          case (Inr r)
          obtain agent s3 where r: "r = (agent, s3)" by (cases r)
          from begin_execution_Inr [OF Inr [unfolded r]] Some
          have s3: "s3 = ?s2\<lparr>agents := AList.update aid agent (agents ?s2),
                  tasks := AList.update h
                    (task\<lparr>status := IN_PROGRESS, assigned_agent := Some aid,
                        started_at := Some (now_started att)\<rparr>) (tasks ?s2)\<rparr>"
            by auto
          have w: "worker_start rnd att s =
                 (Some \<lparr>frame_task = h, frame_agent_id = aid, frame_agent = agent,
                        attached = True\<rparr>, s3)"
            using Cons Some sel False Inr r by (simp add: worker_start_def queue_get_def Let_def)
          show ?thesis using Cons Some unfolding w s3 by simp
        qed
      qed
    qed
  qed
qed

lemma starts_iff:
  "starts rnd att tid s \<longleftrightarrow>
     (\<exists>q task aid. task_queue s = tid # q \<and> map_of (tasks s) tid = Some task \<and>
        select_agent_for_task rnd task (s\<lparr>task_queue := q\<rparr>) = Some aid \<and> aid \<noteq> [] \<and>
        map_of (agents s) aid \<noteq> None \<and> map_of (agent_adapters s) aid \<noteq> None)"
proof (cases "task_queue s")
  case Nil
  then show ?thesis by (simp add: starts_def worker_start_def queue_get_def)
next
  case (Cons h q)
  show ?thesis
  proof (cases "map_of (tasks s) h")
    case None
    then show ?thesis using Cons by (auto simp: starts_def worker_start_def queue_get_def)
  next
    case (Some task)
    show ?thesis
    proof (cases "select_agent_for_task rnd task (s\<lparr>task_queue := q\<rparr>)")
      case None
      then show ?thesis using Cons Some
        by (auto simp: starts_def worker_start_def queue_get_def)
    next
      case sel: (Some aid)
      show ?thesis
      proof (cases "begin_execution att h aid
                      (s\<lparr>task_queue := q, active_tasks := active_tasks s + 1\<rparr>)")
        case (Inl e)
        with isl_begin_execution [of att h aid
            "s\<lparr>task_queue := q, active_tasks := active_tasks s + 1\<rparr>"]
        show ?thesis using Cons Some sel
          by (auto simp: starts_def worker_start_def queue_get_def Let_def)
      next
        case (Inr r)
        with isl_begin_execution [of att h aid
            "s\<lparr>task_queue := q, active_tasks := active_tasks s + 1\<rparr>"]
        show ?thesis using Cons Some sel
          by (auto simp: starts_def worker_start_def queue_get_def Let_def split: prod.splits)
      qed
    qed
  qed
qed

lemma worker_finish_stamps:
  "map (\<lambda>(k, t). (k, priority t, created_at t)) (tasks (worker_finish rnd att fr s))
     = map (\<lambda>(k, t). (k, priority t, created_at t)) (tasks s)"
proof (cases "complete_execution rnd att (frame_task fr) (frame_agent_id fr) (frame_agent fr)
                (attached fr) s")
  case (Inl e)
  then show ?thesis by (simp add: worker_finish_def)
next
  case (Inr r)
  obtain res s1 where r: "r = (res, s1)" by (cases r)
  from complete_execution_Inr [OF Inr [unfolded r]] obtain t0 t' where
    "map_of (tasks s) (frame_task fr) = Some t0"
    "tasks s1 = AList.update (frame_task fr) t' (tasks s)"
    "priority t' = priority t0" "created_at t' = created_at t0"
    by blast
  then have "map (\<lambda>(k, t). (k, priority t, created_at t)) (tasks s1)
     = map (\<lambda>(k, t). (k, priority t, created_at t)) (tasks s)"
    using map_update_same [of "tasks s" "frame_task fr" t0
        "\<lambda>t. (priority t, created_at t)" t'] by simp
  then show ?thesis using Inr r by (simp add: worker_finish_def promote_dependents_def Let_def)
qed

lemma worker_start_stamps:
  "map (\<lambda>(k, t). (k, priority t, created_at t)) (tasks (snd (worker_start rnd att s)))
     = map (\<lambda>(k, t). (k, priority t, created_at t)) (tasks s)"
proof -
  from worker_start_effect [of s rnd att] show ?thesis
  proof (elim disjE exE conjE)
    assume "worker_start rnd att s = (None, s)"
    then show ?thesis by simp
  next
    fix h q
    assume c: "case fst (worker_start rnd att s) of
         None \<Rightarrow>
           tasks (snd (worker_start rnd att s)) = tasks s \<and>
           (task_queue (snd (worker_start rnd att s)) = q \<or>
            task_queue (snd (worker_start rnd att s)) = q @ [h])
       | Some fr \<Rightarrow>
           frame_task fr = h \<and> task_queue (snd (worker_start rnd att s)) = q \<and>
           (\<exists>t0. map_of (tasks s) h = Some t0 \<and>
              tasks (snd (worker_start rnd att s)) =
                AList.update h (t0\<lparr>status := IN_PROGRESS,
                                   assigned_agent := Some (frame_agent_id fr),
                                   started_at := Some (now_started att)\<rparr>) (tasks s))"
    show ?thesis
    proof (cases "fst (worker_start rnd att s)")
      case None
      with c show ?thesis by simp
    next
      case (Some fr)
      with c obtain t0 where "map_of (tasks s) h = Some t0"
        "tasks (snd (worker_start rnd att s)) =
           AList.update h (t0\<lparr>status := IN_PROGRESS,
                               assigned_agent := Some (frame_agent_id fr),
                               started_at := Some (now_started att)\<rparr>) (tasks s)"
        by auto
      then show ?thesis
        using map_update_same [of "tasks s" h t0 "\<lambda>t. (priority t, created_at t)"
            "t0\<lparr>status := IN_PROGRESS, assigned_agent := Some (frame_agent_id fr),
                 started_at := Some (now_started att)\<rparr>"]
        by simp
    qed
  qed
qed

lemma detach_fields [simp]:
  "tasks (detach aid s) = tasks s"
  "task_queue (detach aid s) = task_queue s"
  "scheduled_puts (detach aid s) = scheduled_puts s"
  "agents (detach aid s) = agents s"
  "agent_adapters (detach aid s) = agent_adapters s"
  "performance_metrics (detach aid s) = performance_metrics s"
  by (simp_all add: detach_def)

lemma unregister_agent_loop:
  assumes "aid \<in> fst ` set (agents s)"
  shows "fst (unregister_agent True aid s) = Inr True"
    and "tasks (snd (unregister_agent True aid s)) =
           map (\<lambda>(k, t). (k, if held_by aid t
                  then t\<lparr>status := PENDING, assigned_agent := None\<rparr> else t)) (tasks s)"
    and "task_queue (snd (unregister_agent True aid s)) = task_queue s"
    and "scheduled_puts (snd (unregister_agent True aid s)) =
           scheduled_puts s @ map fst (filter (\<lambda>(k, t). held_by aid t) (tasks s))"
    and "agents (snd (unregister_agent True aid s)) = AList.delete aid (agents s)"
    and "agent_adapters (snd (unregister_agent True aid s)) = AList.delete aid (agent_adapters s)"
    and "performance_metrics (snd (unregister_agent True aid s)) = performance_metrics s"
    and "frames (snd (unregister_agent True aid s)) = frames s"
  using assms by (simp_all add: unregister_agent_def requeue_held_loop Let_def)

lemma unregister_agent_unknown:
  "aid \<notin> fst ` set (agents s) \<Longrightarrow> unregister_agent loop aid s = (Inr False, s)"
  by (simp add: unregister_agent_def)

lemma stamps_reset:
  "map (\<lambda>(k, t). (k, priority t, created_at t))
     (map (\<lambda>(k, t). (k, if held_by aid t
                  then t\<lparr>status := PENDING, assigned_agent := None\<rparr> else t)) ts)
     = map (\<lambda>(k, t). (k, priority t, created_at t)) ts"
  by (induction ts) auto

lemma step_stamps:
  assumes "\<forall>uuid now ttype prio deps. e \<noteq> Submit uuid now ttype prio deps"
  shows "map (\<lambda>(k, t). (k, priority t, created_at t)) (tasks (step rnd e s))
           = map (\<lambda>(k, t). (k, priority t, created_at t)) (tasks s)"
proof (cases e)
  case (Register aid nm prov caps ad)
  then show ?thesis by (simp add: register_agent_def Let_def split: option.splits)
next
  case (Unregister aid)
  show ?thesis
  proof (cases "aid \<in> fst ` set (agents s)")
    case True
    then have "tasks (step rnd e s) =
           map (\<lambda>(k, t). (k, if held_by aid t
                  then t\<lparr>status := PENDING, assigned_agent := None\<rparr> else t)) (tasks s)"
      unfolding Unregister by (simp add: unregister_agent_loop)
    then show ?thesis by (simp only: stamps_reset)
  next
    case False
    then show ?thesis unfolding Unregister by (simp add: unregister_agent_unknown)
  qed
next
  case (Submit uuid now ttype prio deps)
  with assms show ?thesis by simp
next
  case (Work att)
  show ?thesis
  proof (cases "worker_start rnd att s")
    case (Pair fo s1)
    with worker_start_stamps [of rnd att s] have
      s1: "map (\<lambda>(k, t). (k, priority t, created_at t)) (tasks s1)
             = map (\<lambda>(k, t). (k, priority t, created_at t)) (tasks s)"
      by simp
    show ?thesis using Work Pair s1
      by (cases fo) (simp_all add: worker_def worker_finish_stamps)
  qed
next
  case Watch
  then show ?thesis by (simp add: check_dependencies_def)
next
  case (Start att)
  show ?thesis
  proof (cases "worker_start rnd att s")
    case (Pair fo s1)
    with worker_start_stamps [of rnd att s] have
      "map (\<lambda>(k, t). (k, priority t, created_at t)) (tasks s1)
             = map (\<lambda>(k, t). (k, priority t, created_at t)) (tasks s)"
      by simp
    then show ?thesis using Start Pair by (cases fo) simp_all
  qed
next
  case (Finish n att)
  then show ?thesis by (simp add: worker_finish_stamps)
next
  case Deliver
  then show ?thesis by (simp add: run_scheduled_put_def split: list.splits)
qed

subsection \<open>The ready queue\<close>

text \<open>
  C1, as the code has it. The ready queue is first-in first-out and consults neither
  priority nor creation time: \<open>get\<close> returns the entries in exactly the order of the
  \<open>put\<close>s, those already queued first. A worker takes the front entry. The task is
  started exactly when it stands at the front and the selector finds an agent (a
  non-empty id that is registered and has an adapter), and it then leaves the queue;
  when the selector finds no agent, the task is put back at the end of the queue,
  unstarted, and nothing else changes. A task requeued for retry, by the promotion
  after an execution, by a pass of the dependency watcher or by a scheduled put is
  appended at the end of the queue. No step other than a submission changes the
  priority or the creation time of a stored task.
\<close>

theorem queue_fifo:
  "dequeue_order (length (task_queue s) + length tids) (fold queue_put tids s)
     = task_queue s @ tids \<and>
   (starts rnd att tid s \<longleftrightarrow>
      (\<exists>q task aid. task_queue s = tid # q \<and> map_of (tasks s) tid = Some task \<and>
         select_agent_for_task rnd task (s\<lparr>task_queue := q\<rparr>) = Some aid \<and> aid \<noteq> [] \<and>
         map_of (agents s) aid \<noteq> None \<and> map_of (agent_adapters s) aid \<noteq> None)) \<and>
   (starts rnd att tid s \<longrightarrow>
      task_queue (snd (worker_start rnd att s)) = tl (task_queue s)) \<and>
   (\<forall>h q task. task_queue s = h # q \<and> map_of (tasks s) h = Some task \<and>
       select_agent_for_task rnd task (s\<lparr>task_queue := q\<rparr>) = None \<longrightarrow>
       worker_start rnd att s = (None, s\<lparr>task_queue := q @ [h]\<rparr>)) \<and>
   (\<forall>t e aid agent b res s'. map_of (tasks s) tid = Some t \<and> outcome att = Raises e \<and>
       retry_count t < max_retries t \<and>
       complete_execution rnd att tid aid agent b s = Inr (res, s') \<longrightarrow>
       task_queue s' = task_queue s @ [tid]) \<and>
   task_queue (promote_dependents fid s) =
     task_queue s @ map fst (filter (\<lambda>(k, t). fid \<in> set (dependencies t) \<and>
                                        are_dependencies_met t s) (tasks s)) \<and>
   task_queue (check_dependencies s) =
     task_queue s @ map fst (filter (\<lambda>(k, t). status t = PENDING \<and> dependencies t \<noteq> [] \<and>
                                        are_dependencies_met t s) (tasks s)) \<and>
   (\<forall>k rest. scheduled_puts s = k # rest \<longrightarrow>
      task_queue (run_scheduled_put s) = task_queue s @ [k]) \<and>
   ((\<forall>uuid now ttype prio deps. ev \<noteq> Submit uuid now ttype prio deps) \<longrightarrow>
      map (\<lambda>(k, t). (k, priority t, created_at t)) (tasks (step rnd ev s))
        = map (\<lambda>(k, t). (k, priority t, created_at t)) (tasks s))"
proof (intro conjI allI impI)
  show "dequeue_order (length (task_queue s) + length tids) (fold queue_put tids s)
     = task_queue s @ tids"
    by (simp add: dequeue_order_take task_queue_fold_put)
  show "starts rnd att tid s \<longleftrightarrow>
      (\<exists>q task aid. task_queue s = tid # q \<and> map_of (tasks s) tid = Some task \<and>
         select_agent_for_task rnd task (s\<lparr>task_queue := q\<rparr>) = Some aid \<and> aid \<noteq> [] \<and>
         map_of (agents s) aid \<noteq> None \<and> map_of (agent_adapters s) aid \<noteq> None)"
    by (rule starts_iff)
  show "task_queue (promote_dependents fid s) =
     task_queue s @ map fst (filter (\<lambda>(k, t). fid \<in> set (dependencies t) \<and>
                                        are_dependencies_met t s) (tasks s))"
    unfolding promote_dependents_def by (rule promote_loop_queue)
  show "task_queue (check_dependencies s) =
     task_queue s @ map fst (filter (\<lambda>(k, t). status t = PENDING \<and> dependencies t \<noteq> [] \<and>
                                        are_dependencies_met t s) (tasks s))"
    unfolding check_dependencies_def by (rule watcher_loop_queue)
next
  fix k rest assume "scheduled_puts s = k # rest"
  then show "task_queue (run_scheduled_put s) = task_queue s @ [k]"
    by (simp add: run_scheduled_put_def queue_put_def)
next
  assume st: "starts rnd att tid s"
  then obtain fr where fr: "fst (worker_start rnd att s) = Some fr"
    by (auto simp: starts_def split: option.splits)
  from st have "task_queue s \<noteq> []" by (auto simp: starts_iff)
  with worker_start_effect [of s rnd att] fr
  show "task_queue (snd (worker_start rnd att s)) = tl (task_queue s)"
    by auto
next
  fix h q task
  assume "task_queue s = h # q \<and> map_of (tasks s) h = Some task \<and>
       select_agent_for_task rnd task (s\<lparr>task_queue := q\<rparr>) = None"
  then show "worker_start rnd att s = (None, s\<lparr>task_queue := q @ [h]\<rparr>)"
    by (simp add: worker_start_def queue_get_def queue_put_def)
next
  fix t e aid agent b res s'
  assume h: "map_of (tasks s) tid = Some t \<and> outcome att = Raises e \<and>
       retry_count t < max_retries t \<and>
       complete_execution rnd att tid aid agent b s = Inr (res, s')"
  with complete_execution_Raises [of s tid t att e rnd aid agent b res s']
  show "task_queue s' = task_queue s @ [tid]" by auto
next
  assume "\<forall>uuid now ttype prio deps. ev \<noteq> Submit uuid now ttype prio deps"
  then show "map (\<lambda>(k, t). (k, priority t, created_at t)) (tasks (step rnd ev s))
        = map (\<lambda>(k, t). (k, priority t, created_at t)) (tasks s)"
    by (rule step_stamps)
qed

theorem queue_fifo_witness:
  "task_queue (snd (worker_start exact attempt_ok
     (run exact [Register ''a'' ''A'' ''openai'' [''general''] (Some 1),
                 Submit ''t1'' 0 ''analysis'' LOW None,
                 Submit ''t2'' 1 ''analysis'' CRITICAL None] (init 10)))) = [''t2''] \<and>
   worker_start exact attempt_ok
     (run exact [Submit ''t1'' 0 ''analysis'' LOW None,
                 Submit ''t2'' 1 ''analysis'' CRITICAL None] (init 10))
     = (None, (run exact [Submit ''t1'' 0 ''analysis'' LOW None,
                          Submit ''t2'' 1 ''analysis'' CRITICAL None] (init 10))
                \<lparr>task_queue := [''t2''] @ [''t1'']\<rparr>) \<and>
   task_queue (snd (projr (complete_execution exact attempt_raise ''t1'' ''a''
       (frame_agent (hd (frames in_flight))) True in_flight))) = [''t2''] @ [''t1''] \<and>
   task_queue (run_scheduled_put (snd (unregister_agent True ''a'' in_flight)))
     = [''t2''] @ [''t1''] \<and>
   map (\<lambda>(k, t). (k, priority t, created_at t))
     (tasks (step exact (Work attempt_raise)
       (run exact [Register ''a'' ''A'' ''openai'' [''general''] (Some 1),
                   Submit ''t1'' 0 ''analysis'' LOW None,
                   Submit ''t2'' 1 ''analysis'' CRITICAL None] (init 10))))
     = [(''t1'', LOW, 0), (''t2'', CRITICAL, 1)]"
proof -
  let ?s1 = "run exact [Register ''a'' ''A'' ''openai'' [''general''] (Some 1),
                 Submit ''t1'' 0 ''analysis'' LOW None,
                 Submit ''t2'' 1 ''analysis'' CRITICAL None] (init 10)"
  let ?s2 = "run exact [Submit ''t1'' 0 ''analysis'' LOW None,
                 Submit ''t2'' 1 ''analysis'' CRITICAL None] (init 10)"
  let ?task = "the (map_of (tasks ?s2) ''t1'')"
  let ?x = "complete_execution exact attempt_raise ''t1'' ''a''
       (frame_agent (hd (frames in_flight))) True in_flight"
  let ?t = "the (map_of (tasks in_flight) ''t1'')"
  have a1: "starts exact attempt_ok ''t1'' ?s1" by code_simp
  have a2: "tl (task_queue ?s1) = [''t2'']" by code_simp
  have b1: "task_queue ?s2 = ''t1'' # [''t2'']" by code_simp
  have b2: "map_of (tasks ?s2) ''t1'' = Some ?task" by code_simp
  have b3: "select_agent_for_task exact ?task (?s2\<lparr>task_queue := [''t2'']\<rparr>) = None"
    by code_simp
  have c1: "map_of (tasks in_flight) ''t1'' = Some ?t" by code_simp
  have c2: "outcome attempt_raise = Raises ''boom''" by (simp add: attempt_raise_def)
  have c3: "retry_count ?t < max_retries ?t" by code_simp
  have c4: "?x = Inr (fst (projr ?x), snd (projr ?x))" by code_simp
  have c5: "task_queue in_flight = [''t2'']" by code_simp
  from queue_fifo [of ?s1 "[]" exact attempt_ok "''t1''" "''t1''" Watch] a1 a2
  have r1: "task_queue (snd (worker_start exact attempt_ok ?s1)) = [''t2'']" by simp
  from queue_fifo [of ?s2 "[]" exact attempt_ok "''t1''" "''t1''" Watch] b1 b2 b3
  have r2: "worker_start exact attempt_ok ?s2 = (None, ?s2\<lparr>task_queue := [''t2''] @ [''t1'']\<rparr>)"
    by blast
  from queue_fifo [of in_flight "[]" exact attempt_raise "''t1''" "''t1''" Watch] c1 c2 c3 c4
  have "task_queue (snd (projr ?x)) = task_queue in_flight @ [''t1'']" by blast
  with c5 have r3: "task_queue (snd (projr ?x)) = [''t2''] @ [''t1'']" by simp
  let ?u = "snd (unregister_agent True ''a'' in_flight)"
  have d1: "scheduled_puts ?u = ''t1'' # []" by code_simp
  have d2: "task_queue ?u = [''t2'']" by code_simp
  from queue_fifo [of ?u "[]" exact attempt_ok "''t1''" "''t1''" Watch] d1
  have "task_queue (run_scheduled_put ?u) = task_queue ?u @ [''t1'']" by blast
  with d2 have r4: "task_queue (run_scheduled_put ?u) = [''t2''] @ [''t1'']" by simp
  have e1: "\<forall>uuid now ttype prio deps.
              Work attempt_raise \<noteq> Submit uuid now ttype prio deps" by simp
  have e2: "map (\<lambda>(k, t). (k, priority t, created_at t)) (tasks ?s1)
              = [(''t1'', LOW, 0), (''t2'', CRITICAL, 1)]" by code_simp
  from queue_fifo [of ?s1 "[]" exact attempt_ok "''t1''" "''t1''" "Work attempt_raise"] e1
  have "map (\<lambda>(k, t). (k, priority t, created_at t)) (tasks (step exact (Work attempt_raise) ?s1))
          = map (\<lambda>(k, t). (k, priority t, created_at t)) (tasks ?s1)" by blast
  with e2 have r5: "map (\<lambda>(k, t). (k, priority t, created_at t))
      (tasks (step exact (Work attempt_raise) ?s1)) = [(''t1'', LOW, 0), (''t2'', CRITICAL, 1)]"
    by simp
  from r1 r2 r3 r4 r5 show ?thesis by blast
qed

text \<open>
  The claim as stated fails twice. A LOW task submitted before a CRITICAL one is
  executed first: after one worker iteration the LOW task is COMPLETED and the
  CRITICAL one still PENDING. And among two MEDIUM tasks, the older one (created at 0),
  once its execution raised and it was requeued, stands behind the younger one (created
  at 1).
\<close>

theorem priority_dominance_counterexample:
  "task_queue (run exact [Register ''a'' ''A'' ''openai'' [''general''] (Some 1),
                    Submit ''t1'' 0 ''analysis'' LOW None,
                    Submit ''t2'' 1 ''analysis'' CRITICAL None] (init 10)) = [''t1'', ''t2''] \<and>
   map (\<lambda>(k, t). (k, priority t, status t))
     (tasks (run exact [Register ''a'' ''A'' ''openai'' [''general''] (Some 1),
                  Submit ''t1'' 0 ''analysis'' LOW None,
                  Submit ''t2'' 1 ''analysis'' CRITICAL None,
                  Work attempt_ok] (init 10)))
     = [(''t1'', LOW, COMPLETED), (''t2'', CRITICAL, PENDING)] \<and>
   priority_value LOW < priority_value CRITICAL \<and>
   map (\<lambda>(k, t). (k, priority t, created_at t))
     (tasks (run exact [Register ''a'' ''A'' ''openai'' [''general''] (Some 1),
                  Submit ''t1'' 0 ''analysis'' MEDIUM None,
                  Submit ''t2'' 1 ''analysis'' MEDIUM None,
                  Work attempt_raise] (init 10)))
     = [(''t1'', MEDIUM, 0), (''t2'', MEDIUM, 1)] \<and>
   task_queue (run exact [Register ''a'' ''A'' ''openai'' [''general''] (Some 1),
                    Submit ''t1'' 0 ''analysis'' MEDIUM None,
                    Submit ''t2'' 1 ''analysis'' MEDIUM None,
                    Work attempt_raise] (init 10)) = [''t2'', ''t1'']"
  by code_simp

subsection \<open>Submission\<close>

text \<open>
  C2, as the code has it. A submission whose dependency list names an id that is not
  in the task store does not fail: it returns the new task id, the task is stored
  with status PENDING and its dependency list, and it is not put on the ready queue.
\<close>

theorem submit_task_unknown_dependency:
  assumes "d \<in> set deps" and "map_of (tasks s) d = None"
  shows "\<not> isl (submit_task uuid now ttype prm prio (Some deps) md s) \<and>
         fst (projr (submit_task uuid now ttype prm prio (Some deps) md s)) = uuid \<and>
         task_queue (snd (projr (submit_task uuid now ttype prm prio (Some deps) md s)))
           = task_queue s \<and>
         map_option (\<lambda>t. (status t, dependencies t))
           (map_of (tasks (snd (projr (submit_task uuid now ttype prm prio (Some deps) md s)))) uuid)
           = Some (PENDING, deps)"
proof -
  let ?task = "\<lparr>task_id = uuid, task_type = ttype, prompt = prm, priority = prio,
                   status = PENDING, assigned_agent = None, created_at = now,
                   started_at = None, completed_at = None, result = None, error = None,
                   metadata = (case md of None \<Rightarrow> [] | Some m \<Rightarrow> m),
                   dependencies = deps, retry_count = 0, max_retries = 3\<rparr>"
  let ?ts = "AList.update uuid ?task (tasks s)"
  have "map_option status (map_of ?ts d) \<noteq> Some COMPLETED"
    using assms(2) by (simp add: update_conv')
  with assms(1) have "\<not> dependencies_loop deps ?ts"
    by (rule dependencies_loop_missing)
  then show ?thesis
    by (simp add: submit_task_def are_dependencies_met_def Let_def update_conv')
qed

theorem submit_task_unknown_dependency_witness:
  "\<not> isl (submit_task ''t1'' 0 ''analysis'' ''p'' MEDIUM (Some [''ghost'']) None (init 10)) \<and>
   task_queue (snd (projr (submit_task ''t1'' 0 ''analysis'' ''p'' MEDIUM (Some [''ghost'']) None
     (init 10)))) = task_queue (init 10)"
proof -
  have "''ghost'' \<in> set [''ghost'']" by simp
  moreover have "map_of (tasks (init 10)) ''ghost'' = None" by (simp add: init_def)
  ultimately show ?thesis
    using submit_task_unknown_dependency [of "''ghost''" "[''ghost'']" "init 10"] by blast
qed

text \<open>
  The claim as stated fails: on the empty store, a submission depending on the unknown
  id \<open>ghost\<close> returns its task id.
\<close>

theorem submit_task_rejects_counterexample:
  "map_of (tasks (init 10)) ''ghost'' = None \<and>
   submit_task ''t1'' 0 ''analysis'' ''p'' MEDIUM (Some [''ghost'']) None (init 10) =
     Inr (''t1'',
          (init 10)\<lparr>tasks := [(''t1'',
             \<lparr>task_id = ''t1'', task_type = ''analysis'', prompt = ''p'', priority = MEDIUM,
              status = PENDING, assigned_agent = None, created_at = 0, started_at = None,
              completed_at = None, result = None, error = None, metadata = [],
              dependencies = [''ghost''], retry_count = 0, max_retries = 3\<rparr>)]\<rparr>)"
  by (simp add: submit_task_def init_def are_dependencies_met_def Let_def)

subsection \<open>Unregistration\<close>

lemma requeue_held_none:
  "\<forall>(k, t)\<in>set ts. \<not> held_by aid t \<Longrightarrow> requeue_held loop aid ts = (None, ts, [])"
  by (induction ts) auto

lemma requeue_held_no_loop:
  "\<exists>(k, t)\<in>set ts. held_by aid t \<Longrightarrow>
     fst (requeue_held False aid ts) = Some (RuntimeError ''no running event loop'') \<and>
     snd (snd (requeue_held False aid ts)) = []"
proof (induction ts)
  case Nil
  then show ?case by simp
next
  case (Cons p ts)
  obtain k task where p: "p = (k, task)" by (cases p)
  show ?case
  proof (cases "held_by aid task")
    case True
    then show ?thesis unfolding p by simp
  next
    case False
    with Cons.prems p have "\<exists>(k, t)\<in>set ts. held_by aid t" by auto
    from Cons.IH [OF this] False show ?thesis
      unfolding p by (cases "requeue_held False aid ts") (auto simp: Let_def)
  qed
qed

lemma unregister_agent_no_loop:
  assumes "aid \<in> fst ` set (agents s)" and "\<exists>(k, t)\<in>set (tasks s). held_by aid t"
  shows "fst (unregister_agent False aid s) = Inl (RuntimeError ''no running event loop'')"
    and "agents (snd (unregister_agent False aid s)) = agents s"
    and "agent_adapters (snd (unregister_agent False aid s)) = agent_adapters s"
    and "task_queue (snd (unregister_agent False aid s)) = task_queue s"
    and "scheduled_puts (snd (unregister_agent False aid s)) = scheduled_puts s"
proof -
  obtain e ts ps where r: "requeue_held False aid (tasks s) = (e, ts, ps)"
    by (cases "requeue_held False aid (tasks s)") auto
  from requeue_held_no_loop [OF assms(2)] r
  have e: "e = Some (RuntimeError ''no running event loop'')" and ps: "ps = []" by simp_all
  show "fst (unregister_agent False aid s) = Inl (RuntimeError ''no running event loop'')"
    and "agents (snd (unregister_agent False aid s)) = agents s"
    and "agent_adapters (snd (unregister_agent False aid s)) = agent_adapters s"
    and "task_queue (snd (unregister_agent False aid s)) = task_queue s"
    and "scheduled_puts (snd (unregister_agent False aid s)) = scheduled_puts s"
    using assms(1) r e ps by (simp_all add: unregister_agent_def)
qed

lemma unregister_agent_nothing_held:
  assumes "\<forall>(k, t)\<in>set (tasks s). \<not> held_by aid t"
  shows "unregister_agent False aid s = unregister_agent True aid s"
  using requeue_held_none [OF assms] by (simp add: unregister_agent_def)




subsection \<open>Metrics\<close>

lemma set_update_cases:
  "x \<in> set (AList.update k v al) \<Longrightarrow> x = (k, v) \<or> x \<in> set al"
  by (induction al) (auto split: if_splits)

lemma provider_metrics_in_set:
  "provider_metrics prov s = default_metrics \<or> (prov, provider_metrics prov s) \<in> set (performance_metrics s)"
  by (auto simp: provider_metrics_def split: option.splits dest: map_of_SomeD)

lemma update_metrics_entry:
  "performance_metrics (update_metrics rnd prov b t s) =
     AList.update prov
       \<lparr>total_tasks = total_tasks (provider_metrics prov s) + 1,
        successful_tasks = successful_tasks (provider_metrics prov s) + (if b then 1 else 0),
        failed_tasks = failed_tasks (provider_metrics prov s) + (if b then 0 else 1),
        total_time = rnd (total_time (provider_metrics prov s) + t),
        average_time = rnd (rnd (total_time (provider_metrics prov s) + t) /
                         rnd (real (total_tasks (provider_metrics prov s) + 1)))\<rparr>
       (performance_metrics s)"
  by (cases "provider_metrics prov s") (simp add: update_metrics_def Let_def)

lemma update_metrics_identity:
  assumes "\<forall>(p, m)\<in>set (performance_metrics s). spec_metrics_identity rnd m \<and> 0 < total_tasks m"
  shows "\<forall>(p, m)\<in>set (performance_metrics (update_metrics rnd prov b t s)).
           spec_metrics_identity rnd m \<and> 0 < total_tasks m"
proof -
  let ?m = "provider_metrics prov s"
  have old: "total_tasks ?m = successful_tasks ?m + failed_tasks ?m"
    using provider_metrics_in_set [of prov s] assms
    by (auto simp: default_metrics_def spec_metrics_identity_def)
  show ?thesis
    unfolding update_metrics_entry
    using assms old
    by (auto dest!: set_update_cases simp: spec_metrics_identity_def fl_divide_def)
qed

lemma provider_metrics_update_metrics:
  "provider_metrics p (update_metrics rnd prov b t s) =
     (if p = prov then
        \<lparr>total_tasks = total_tasks (provider_metrics prov s) + 1,
         successful_tasks = successful_tasks (provider_metrics prov s) + (if b then 1 else 0),
         failed_tasks = failed_tasks (provider_metrics prov s) + (if b then 0 else 1),
         total_time = rnd (total_time (provider_metrics prov s) + t),
         average_time = rnd (rnd (total_time (provider_metrics prov s) + t) /
                         rnd (real (total_tasks (provider_metrics prov s) + 1)))\<rparr>
      else provider_metrics p s)"
  by (simp add: provider_metrics_def [of p] update_metrics_entry update_conv')

lemma complete_execution_metrics:
  assumes "complete_execution rnd att tid aid agent b s = Inr (res, s')"
  shows "performance_metrics s' =
           performance_metrics (update_metrics rnd (provider agent) (success res) (elapsed att) s)"
  using assms
  by (auto simp: complete_execution_def Let_def queue_put_def
      split: option.splits outcome.splits if_splits)

lemma execute_task_metrics:
  assumes "execute_task rnd att tid aid s = Inr (res, s')"
  shows "\<exists>a. map_of (agents s) aid = Some a \<and>
           performance_metrics s' =
             performance_metrics (update_metrics rnd (provider a) (success res) (elapsed att) s)"
proof -
  from assms obtain agent s1 where
    b: "begin_execution att tid aid s = Inr (agent, s1)" and
    c: "complete_execution rnd att tid aid agent True s1 = Inr (res, s')"
    by (auto simp: execute_task_def split: sum.splits)
  from begin_execution_Inr [OF b] obtain t0 a0 where
    a0: "map_of (agents s) aid = Some a0" and
    ag: "agent = a0\<lparr>agent_status := BUSY, current_task := Some (task_id t0)\<rparr>" and
    s1: "s1 = s\<lparr>agents := AList.update aid agent (agents s),
                  tasks := AList.update tid
                    (t0\<lparr>status := IN_PROGRESS, assigned_agent := Some aid,
                        started_at := Some (now_started att)\<rparr>) (tasks s)\<rparr>"
    by blast
  have "performance_metrics (update_metrics rnd prov bb t s1)
          = performance_metrics (update_metrics rnd prov bb t s)" for prov bb t
    unfolding s1 by (simp add: update_metrics_def Let_def provider_metrics_def)
  with complete_execution_metrics [OF c] a0 ag show ?thesis by simp
qed

lemma worker_finish_metrics:
  "performance_metrics (worker_finish rnd att fr s) = performance_metrics s \<or>
   (\<exists>prov b t. performance_metrics (worker_finish rnd att fr s) =
       performance_metrics (update_metrics rnd prov b t s))"
proof (cases "complete_execution rnd att (frame_task fr) (frame_agent_id fr) (frame_agent fr)
                (attached fr) s")
  case (Inl e)
  then show ?thesis by (simp add: worker_finish_def)
next
  case (Inr r)
  obtain res s1 where r: "r = (res, s1)" by (cases r)
  from complete_execution_metrics [OF Inr [unfolded r]] Inr r
  have "performance_metrics (worker_finish rnd att fr s) =
          performance_metrics (update_metrics rnd (provider (frame_agent fr)) (success res)
            (elapsed att) s)"
    by (simp add: worker_finish_def promote_dependents_def Let_def)
  then show ?thesis by blast
qed

lemma metrics_frames_update:
  "performance_metrics (update_metrics rnd prov b t (s\<lparr>frames := fs\<rparr>))
     = performance_metrics (update_metrics rnd prov b t s)"
  by (simp add: update_metrics_def Let_def provider_metrics_def)

lemma step_metrics:
  "performance_metrics (step rnd e s) = performance_metrics s \<or>
   (\<exists>prov b t. performance_metrics (step rnd e s) =
       performance_metrics (update_metrics rnd prov b t s))"
proof (cases e)
  case (Register aid nm prov caps ad)
  then show ?thesis by (simp add: register_agent_def Let_def split: option.splits)
next
  case (Unregister aid)
  then show ?thesis
    by (cases "aid \<in> fst ` set (agents s)")
      (simp_all add: unregister_agent_loop unregister_agent_unknown)
next
  case (Submit uuid now ttype prio deps)
  then show ?thesis by (simp add: submit_task_def Let_def)
next
  case (Work att)
  show ?thesis
  proof (cases "worker_start rnd att s")
    case (Pair fo s1)
    from worker_start_effect [of s rnd att] Pair
    have pm: "performance_metrics s1 = performance_metrics s" by auto
    show ?thesis
    proof (cases fo)
      case None
      with Work Pair pm show ?thesis by (simp add: worker_def)
    next
      case (Some fr)
      have "performance_metrics (update_metrics rnd prov b t s1)
          = performance_metrics (update_metrics rnd prov b t s)" for prov b t
        using pm by (simp add: update_metrics_def Let_def provider_metrics_def)
      with worker_finish_metrics [of rnd att fr s1] pm Work Pair Some
      show ?thesis by (auto simp: worker_def)
    qed
  qed
next
  case Watch
  then show ?thesis by (simp add: check_dependencies_def)
next
  case (Start att)
  show ?thesis
  proof (cases "worker_start rnd att s")
    case (Pair fo s1)
    from worker_start_effect [of s rnd att] Pair
    have "performance_metrics s1 = performance_metrics s" by auto
    then show ?thesis using Start Pair by (cases fo) simp_all
  qed
next
  case (Finish n att)
  show ?thesis
  proof (cases "n < length (frames s)")
    case True
    with worker_finish_metrics [of rnd att "frames s ! n"
        "s\<lparr>frames := take n (frames s) @ drop (Suc n) (frames s)\<rparr>"] Finish
    show ?thesis by (auto simp: metrics_frames_update)
  next
    case False
    with Finish show ?thesis by simp
  qed
next
  case Deliver
  then show ?thesis by (simp add: run_scheduled_put_def split: list.splits)
qed

lemma run_metrics_identity:
  "\<forall>(p, m)\<in>set (performance_metrics s). spec_metrics_identity rnd m \<and> 0 < total_tasks m \<Longrightarrow>
   \<forall>(p, m)\<in>set (performance_metrics (run rnd es s)). spec_metrics_identity rnd m \<and> 0 < total_tasks m"
proof (induction es arbitrary: s)
  case Nil
  then show ?case by simp
next
  case (Cons e es)
  have "\<forall>(p, m)\<in>set (performance_metrics (step rnd e s)).
          spec_metrics_identity rnd m \<and> 0 < total_tasks m"
    using step_metrics [of rnd e s]
  proof
    assume "performance_metrics (step rnd e s) = performance_metrics s"
    with Cons.prems show ?thesis by simp
  next
    assume "\<exists>prov b t. performance_metrics (step rnd e s) =
       performance_metrics (update_metrics rnd prov b t s)"
    then obtain prov b t where
      "performance_metrics (step rnd e s) = performance_metrics (update_metrics rnd prov b t s)"
      by blast
    with update_metrics_identity [OF Cons.prems, of prov b t] show ?thesis by simp
  qed
  then show ?case unfolding run.simps by (rule Cons.IH)
qed

text \<open>
  C8. After every run of the orchestrator from its initial state, with executions
  interleaved in any way and whatever the rounding of the float operations, every
  provider's metrics record satisfies the identity (the total is the sum of the
  successes and the failures; the average time is the float quotient of the total time
  by the total, whose divisor is positive). Every call of \<open>_execute_task\<close> that
  reaches the adapter, whether it succeeds, fails for good or fails and is retried,
  adds exactly one to the \<open>total_tasks\<close> of the executing agent's provider and
  leaves the other providers' records alone; so does its second half in whatever
  state the adapter's outcome arrives. With exact arithmetic the average time is the
  quotient itself.
\<close>

theorem metrics_identity:
  "(\<forall>(p, m)\<in>set (performance_metrics (run rnd es (init n))).
      spec_metrics_identity rnd m \<and> 0 < total_tasks m) \<and>
   (\<forall>res s'. execute_task rnd att tid aid s = Inr (res, s') \<longrightarrow>
      (\<exists>a. map_of (agents s) aid = Some a \<and>
         total_tasks (provider_metrics (provider a) s')
           = total_tasks (provider_metrics (provider a) s) + 1 \<and>
         (\<forall>p. p \<noteq> provider a \<longrightarrow> provider_metrics p s' = provider_metrics p s))) \<and>
   (\<forall>agent b res s'. complete_execution rnd att tid aid agent b s = Inr (res, s') \<longrightarrow>
      total_tasks (provider_metrics (provider agent) s')
        = total_tasks (provider_metrics (provider agent) s) + 1 \<and>
      (\<forall>p. p \<noteq> provider agent \<longrightarrow> provider_metrics p s' = provider_metrics p s)) \<and>
   (\<forall>(p, m)\<in>set (performance_metrics (run exact es (init n))).
      total_tasks m = successful_tasks m + failed_tasks m \<and> 0 < total_tasks m \<and>
      average_time m = total_time m / real (total_tasks m))"
proof (intro conjI allI impI)
  have "\<forall>(p, m)\<in>set (performance_metrics (run exact es (init n))).
      spec_metrics_identity exact m \<and> 0 < total_tasks m"
    by (rule run_metrics_identity) (simp add: init_def)
  then show "\<forall>(p, m)\<in>set (performance_metrics (run exact es (init n))).
      total_tasks m = successful_tasks m + failed_tasks m \<and> 0 < total_tasks m \<and>
      average_time m = total_time m / real (total_tasks m)"
    by (auto simp: spec_metrics_identity_def fl_divide_def exact_def)
  show "\<forall>(p, m)\<in>set (performance_metrics (run rnd es (init n))).
      spec_metrics_identity rnd m \<and> 0 < total_tasks m"
    by (rule run_metrics_identity) (simp add: init_def)
next
  fix res s' assume "execute_task rnd att tid aid s = Inr (res, s')"
  from execute_task_metrics [OF this] obtain a where
    a: "map_of (agents s) aid = Some a" and
    pm: "performance_metrics s' =
           performance_metrics (update_metrics rnd (provider a) (success res) (elapsed att) s)"
    by blast
  have "provider_metrics p s' =
          provider_metrics p (update_metrics rnd (provider a) (success res) (elapsed att) s)" for p
    by (simp add: provider_metrics_def pm)
  then show "\<exists>a. map_of (agents s) aid = Some a \<and>
         total_tasks (provider_metrics (provider a) s')
           = total_tasks (provider_metrics (provider a) s) + 1 \<and>
         (\<forall>p. p \<noteq> provider a \<longrightarrow> provider_metrics p s' = provider_metrics p s)"
    using a by (simp add: provider_metrics_update_metrics)
next
  fix agent b res s'
  assume c: "complete_execution rnd att tid aid agent b s = Inr (res, s')"
  have pm: "provider_metrics p s' =
          provider_metrics p (update_metrics rnd (provider agent) (success res) (elapsed att) s)"
    for p
    by (simp add: provider_metrics_def complete_execution_metrics [OF c])
  show "total_tasks (provider_metrics (provider agent) s')
        = total_tasks (provider_metrics (provider agent) s) + 1"
    by (simp add: pm provider_metrics_update_metrics)
  fix p assume "p \<noteq> provider agent"
  then show "provider_metrics p s' = provider_metrics p s"
    by (simp add: pm provider_metrics_update_metrics)
qed

theorem metrics_identity_witness:
  "performance_metrics
     (run exact [Register ''a'' ''A'' ''openai'' [''general''] (Some 1),
           Submit ''t1'' 0 ''analysis'' MEDIUM None,
           Work attempt_raise, Work attempt_ok] (init 10))
     = [(''openai'', \<lparr>total_tasks = 2, successful_tasks = 1, failed_tasks = 1,
                       total_time = 3, average_time = 3 / 2\<rparr>)] \<and>
   spec_metrics_identity exact \<lparr>total_tasks = 2, successful_tasks = 1, failed_tasks = 1,
                          total_time = 3, average_time = 3 / 2\<rparr>"
proof -
  let ?es = "[Register ''a'' ''A'' ''openai'' [''general''] (Some 1),
              Submit ''t1'' 0 ''analysis'' MEDIUM None,
              Work attempt_raise, Work attempt_ok]"
  have pm: "performance_metrics (run exact ?es (init 10))
     = [(''openai'', \<lparr>total_tasks = 2, successful_tasks = 1, failed_tasks = 1,
                       total_time = 3, average_time = 3 / 2\<rparr>)]"
    by code_simp
  have "\<forall>(p, m)\<in>set (performance_metrics (run exact ?es (init 10))).
          spec_metrics_identity exact m \<and> 0 < total_tasks m"
    using metrics_identity [of exact ?es 10] by blast
  then have "spec_metrics_identity exact \<lparr>total_tasks = 2, successful_tasks = 1, failed_tasks = 1,
                          total_time = 3, average_time = 3 / 2\<rparr>"
    unfolding pm by simp
  with pm show ?thesis by blast
qed

subsection \<open>Enqueueing by the watcher and by the promotion\<close>

lemma are_dependencies_met_iff:
  "are_dependencies_met t s \<longleftrightarrow>
     (\<forall>d\<in>set (dependencies t). map_option status (map_of (tasks s) d) = Some COMPLETED)"
  by (auto simp: are_dependencies_met_def dependencies_loop_iff)

text \<open>
  C3, as the code has it. Neither the dependency watcher nor the completion-time
  promotion looks at the queue. One pass of the watcher appends, in store order,
  exactly the stored tasks that are PENDING, have a non-empty prerequisite list and
  have every prerequisite stored with status COMPLETED. The promotion after the
  execution of task \<open>fid\<close> appends exactly the stored tasks that list \<open>fid\<close> as a
  prerequisite and have every prerequisite stored with status COMPLETED, whatever their
  own status. Neither changes a task.
\<close>

theorem enqueue_conditions:
  "task_queue (check_dependencies s) =
     task_queue s @ map fst (filter (\<lambda>(k, t). status t = PENDING \<and> dependencies t \<noteq> [] \<and>
        (\<forall>d\<in>set (dependencies t). map_option status (map_of (tasks s) d) = Some COMPLETED))
        (tasks s)) \<and>
   tasks (check_dependencies s) = tasks s \<and>
   task_queue (promote_dependents fid s) =
     task_queue s @ map fst (filter (\<lambda>(k, t). fid \<in> set (dependencies t) \<and>
        (\<forall>d\<in>set (dependencies t). map_option status (map_of (tasks s) d) = Some COMPLETED))
        (tasks s)) \<and>
   tasks (promote_dependents fid s) = tasks s"
  by (simp add: check_dependencies_def promote_dependents_def watcher_loop_queue
      promote_loop_queue are_dependencies_met_iff)

theorem enqueue_conditions_witness:
  "task_queue (check_dependencies
     (run exact [Register ''a'' ''A'' ''openai'' [''general''] (Some 1),
           Submit ''t1'' 0 ''analysis'' MEDIUM None,
           Submit ''t2'' 1 ''analysis'' MEDIUM (Some [''t1'']),
           Work attempt_ok] (init 10))) = [''t2'', ''t2''] \<and>
   task_queue (promote_dependents ''t1''
     (run exact [Register ''a'' ''A'' ''openai'' [''general''] (Some 1),
           Submit ''t1'' 0 ''analysis'' MEDIUM None,
           Submit ''t2'' 1 ''analysis'' MEDIUM (Some [''t1'']),
           Work attempt_ok] (init 10))) = [''t2'', ''t2'']"
proof -
  let ?s = "run exact [Register ''a'' ''A'' ''openai'' [''general''] (Some 1),
           Submit ''t1'' 0 ''analysis'' MEDIUM None,
           Submit ''t2'' 1 ''analysis'' MEDIUM (Some [''t1'']),
           Work attempt_ok] (init 10)"
  have w: "task_queue ?s @ map fst (filter (\<lambda>(k, t). status t = PENDING \<and> dependencies t \<noteq> [] \<and>
        (\<forall>d\<in>set (dependencies t). map_option status (map_of (tasks ?s) d) = Some COMPLETED))
        (tasks ?s)) = [''t2'', ''t2'']"
    by code_simp
  have p: "task_queue ?s @ map fst (filter (\<lambda>(k, t). ''t1'' \<in> set (dependencies t) \<and>
        (\<forall>d\<in>set (dependencies t). map_option status (map_of (tasks ?s) d) = Some COMPLETED))
        (tasks ?s)) = [''t2'', ''t2'']"
    by code_simp
  from enqueue_conditions [of ?s "''t1''"] w p show ?thesis by simp
qed

text \<open>
  The claim as stated fails twice. After \<open>t1\<close> completes, the promotion enqueues its
  dependent \<open>t2\<close>, and the next pass of the watcher enqueues \<open>t2\<close> again: two slots
  for one task. And in the second run the promotion enqueues \<open>y\<close> when \<open>y\<close> is
  already COMPLETED: \<open>x\<close> was queued twice (promotion and watcher), its second
  execution raised after \<open>y\<close> had been promoted, so \<open>y\<close> ran before the retry of
  \<open>x\<close>, whose completion promoted \<open>y\<close> once more.
\<close>

theorem enqueue_once_counterexample:
  "task_queue
     (run exact [Register ''a'' ''A'' ''openai'' [''general''] (Some 1),
           Submit ''t1'' 0 ''analysis'' MEDIUM None,
           Submit ''t2'' 1 ''analysis'' MEDIUM (Some [''t1'']),
           Work attempt_ok, Watch] (init 10)) = [''t2'', ''t2''] \<and>
   task_queue
     (run exact [Register ''a'' ''A'' ''openai'' [''general''] (Some 1),
           Submit ''z'' 0 ''analysis'' MEDIUM None,
           Submit ''x'' 1 ''analysis'' MEDIUM (Some [''z'']),
           Submit ''y'' 2 ''analysis'' MEDIUM (Some [''x'']),
           Work attempt_ok, Watch, Work attempt_ok, Work attempt_raise, Work attempt_ok,
           Work attempt_ok] (init 10)) = [''y''] \<and>
   map (\<lambda>(k, t). (k, status t))
     (tasks
       (run exact [Register ''a'' ''A'' ''openai'' [''general''] (Some 1),
             Submit ''z'' 0 ''analysis'' MEDIUM None,
             Submit ''x'' 1 ''analysis'' MEDIUM (Some [''z'']),
             Submit ''y'' 2 ''analysis'' MEDIUM (Some [''x'']),
             Work attempt_ok, Watch, Work attempt_ok, Work attempt_raise, Work attempt_ok,
             Work attempt_ok] (init 10)))
     = [(''z'', COMPLETED), (''x'', COMPLETED), (''y'', COMPLETED)]"
  by code_simp

subsection \<open>Execution and retry\<close>

text \<open>
  C4 fails on the code. The failure branch of \<open>_execute_task\<close> sets \<open>completed_at\<close>
  before the retry logic, and the retry logic resets the status and the assignment but
  not \<open>completed_at\<close>: after one raising attempt the task is PENDING with retry count
  1 and \<open>completed_at\<close> set.
\<close>

theorem retry_keeps_completed_at:
  "map (\<lambda>(k, t). (k, status t, retry_count t, completed_at t))
     (tasks (run exact [Register ''a'' ''A'' ''openai'' [''general''] (Some 1),
                  Submit ''t1'' 0 ''analysis'' MEDIUM None,
                  Work attempt_raise] (init 10)))
     = [(''t1'', PENDING, 1, Some 21)]"
  by code_simp

lemma promoted_not_tid:
  assumes "distinct (map fst ts)" and "map_of ts tid = Some t" and "dependencies t = []"
    and "\<forall>k\<in>set ps. \<exists>t'. (k, t') \<in> set ts \<and> dependencies t' \<noteq> []"
  shows "count_list ps tid = 0"
proof -
  have "tid \<notin> set ps"
  proof
    assume "tid \<in> set ps"
    with assms(4) obtain t' where "(tid, t') \<in> set ts" "dependencies t' \<noteq> []" by blast
    with assms(1) have "map_of ts tid = Some t'" by simp
    with assms(2,3) \<open>dependencies t' \<noteq> []\<close> show False by simp
  qed
  then show ?thesis by simp
qed

lemma budget_same_fields:
  assumes "tasks s' = tasks s" and "task_queue s' = task_queue s"
    and "scheduled_puts s' = scheduled_puts s"
  shows "tracked tid s' = tracked tid s" and "retry_budget tid s' = retry_budget tid s"
  using assms by (simp_all add: tracked_def retry_budget_def)

lemma exec_budget:
  assumes inv: "tracked tid s"
    and t0: "map_of (tasks s) h = Some t0"
    and ts: "tasks s' = AList.update h t' (tasks s)"
    and keep: "dependencies t' = dependencies t0" "max_retries t' = max_retries t0"
    and sch: "scheduled_puts s' = scheduled_puts s"
    and ps: "\<forall>k\<in>set ps. \<exists>t. (k, t) \<in> set (tasks s') \<and> dependencies t \<noteq> []"
    and qs: "if retry_count t' = retry_count t0 then task_queue s' = Q @ ps
             else retry_count t0 < max_retries t0 \<and> retry_count t' = Suc (retry_count t0) \<and>
                  task_queue s' = Q @ [h] @ ps"
  shows "tracked tid s' \<and>
         retry_budget tid s' + count_list (task_queue s) tid
           \<le> retry_budget tid s + count_list Q tid"
proof -
  from inv obtain t where
    d: "distinct (map fst (tasks s))" and
    t: "map_of (tasks s) tid = Some t" and dep: "dependencies t = []" and
    rc: "retry_count t \<le> max_retries t"
    unfolding tracked_def by blast
  have d': "distinct (map fst (tasks s'))"
    unfolding ts using d by (simp add: distinct_update)
  show ?thesis
  proof (cases "h = tid")
    case True
    then have tt: "t0 = t" using t0 t by simp
    have m': "map_of (tasks s') tid = Some t'"
      unfolding ts using True by (simp add: update_conv')
    have "dependencies t' = []" using keep(1) tt dep by simp
    from promoted_not_tid [OF d' m' this ps] have nps: "count_list ps tid = 0" .
    have "tracked tid s'"
      unfolding tracked_def m'
      using d' keep tt dep rc qs by (auto split: if_splits)
    moreover have "retry_budget tid s' + count_list (task_queue s) tid
           \<le> retry_budget tid s + count_list Q tid"
      unfolding retry_budget_def m' t sch
      using True keep tt rc qs nps by (auto split: if_splits)
    ultimately show ?thesis ..
  next
    case False
    have m': "map_of (tasks s') tid = Some t"
      unfolding ts using False t by (simp add: update_conv')
    from promoted_not_tid [OF d' m' dep ps] have nps: "count_list ps tid = 0" .
    have "tracked tid s'"
      unfolding tracked_def m'
      using d' dep rc by simp
    moreover have "retry_budget tid s' + count_list (task_queue s) tid
           \<le> retry_budget tid s + count_list Q tid"
      unfolding retry_budget_def m' t sch
      using False qs nps by (auto split: if_splits)
    ultimately show ?thesis ..
  qed
qed

lemma start_budget:
  assumes inv: "tracked tid s"
  shows "tracked tid (snd (worker_start rnd att s)) \<and>
         retry_budget tid (snd (worker_start rnd att s)) + (if starts rnd att tid s then 1 else 0)
           \<le> retry_budget tid s"
proof -
  let ?s' = "snd (worker_start rnd att s)"
  from worker_start_effect [of s rnd att] show ?thesis
  proof (elim disjE exE conjE)
    assume "task_queue s = []" "worker_start rnd att s = (None, s)"
    then show ?thesis using inv by (simp add: starts_def)
  next
    fix h q
    assume q: "task_queue s = h # q"
      and sch: "scheduled_puts ?s' = scheduled_puts s"
      and c: "case fst (worker_start rnd att s) of
         None \<Rightarrow> tasks ?s' = tasks s \<and> (task_queue ?s' = q \<or> task_queue ?s' = q @ [h])
       | Some fr \<Rightarrow>
           frame_task fr = h \<and> task_queue ?s' = q \<and>
           (\<exists>t0. map_of (tasks s) h = Some t0 \<and>
              tasks ?s' =
                AList.update h (t0\<lparr>status := IN_PROGRESS,
                                   assigned_agent := Some (frame_agent_id fr),
                                   started_at := Some (now_started att)\<rparr>) (tasks s))"
    show ?thesis
    proof (cases "fst (worker_start rnd att s)")
      case None
      with c have ts: "tasks ?s' = tasks s"
        and q': "task_queue ?s' = q \<or> task_queue ?s' = q @ [h]" by auto
      have ns: "\<not> starts rnd att tid s" using None by (simp add: starts_def)
      have "tracked tid ?s'" using inv unfolding tracked_def ts .
      moreover have "retry_budget tid ?s' \<le> retry_budget tid s"
        unfolding retry_budget_def ts sch using q q' by (auto split: option.splits)
      ultimately show ?thesis using ns by simp
    next
      case (Some fr)
      with c obtain t0 where fh: "frame_task fr = h" and q': "task_queue ?s' = q"
        and t0: "map_of (tasks s) h = Some t0"
        and ts: "tasks ?s' =
                AList.update h (t0\<lparr>status := IN_PROGRESS,
                                   assigned_agent := Some (frame_agent_id fr),
                                   started_at := Some (now_started att)\<rparr>) (tasks s)"
        by auto
      have st: "starts rnd att tid s \<longleftrightarrow> h = tid"
        using Some fh by (simp add: starts_def)
      from exec_budget [OF inv t0 ts _ _ sch, of "[]" q] q'
      have "tracked tid ?s' \<and>
         retry_budget tid ?s' + count_list (task_queue s) tid
           \<le> retry_budget tid s + count_list q tid"
        by simp
      then show ?thesis using q st by (auto split: if_splits)
    qed
  qed
qed

lemma promote_loop_appends:
  "\<exists>ps. task_queue (promote_loop fid ts s) = task_queue s @ ps \<and>
        (\<forall>k\<in>set ps. \<exists>t. (k, t) \<in> set ts \<and> dependencies t \<noteq> [])"
proof -
  let ?ps = "map fst (filter (\<lambda>(k, t). fid \<in> set (dependencies t) \<and>
                                        are_dependencies_met t s) ts)"
  have "\<forall>k\<in>set ?ps. \<exists>t. (k, t) \<in> set ts \<and> dependencies t \<noteq> []"
    by auto
  then show ?thesis
    using promote_loop_queue [of fid ts s] by blast
qed

lemma finish_budget:
  assumes inv: "tracked tid s"
  shows "tracked tid (worker_finish rnd att fr s) \<and>
         retry_budget tid (worker_finish rnd att fr s) \<le> retry_budget tid s"
proof (cases "complete_execution rnd att (frame_task fr) (frame_agent_id fr) (frame_agent fr)
                (attached fr) s")
  case (Inl e)
  then have w: "worker_finish rnd att fr s = s\<lparr>active_tasks := active_tasks s - 1\<rparr>"
    by (simp add: worker_finish_def)
  have "tracked tid (worker_finish rnd att fr s) = tracked tid s"
    "retry_budget tid (worker_finish rnd att fr s) = retry_budget tid s"
    unfolding w by (rule budget_same_fields; simp)+
  then show ?thesis using inv by simp
next
  case (Inr r)
  obtain res s1 where r: "r = (res, s1)" by (cases r)
  let ?h = "frame_task fr"
  let ?s2 = "promote_dependents (res_task_id res) s1"
  let ?w = "worker_finish rnd att fr s"
  have w: "?w = ?s2\<lparr>active_tasks := active_tasks ?s2 - 1\<rparr>"
    using Inr r by (simp add: worker_finish_def Let_def)
  from complete_execution_Inr [OF Inr [unfolded r]] obtain t0 t' where
    t0: "map_of (tasks s) ?h = Some t0" and
    ts: "tasks s1 = AList.update ?h t' (tasks s)" and
    keep: "dependencies t' = dependencies t0" "max_retries t' = max_retries t0" and
    sch: "scheduled_puts s1 = scheduled_puts s" and
    q: "if retry_count t' = retry_count t0 then task_queue s1 = task_queue s
        else retry_count t0 < max_retries t0 \<and> retry_count t' = Suc (retry_count t0) \<and>
             task_queue s1 = task_queue s @ [?h]"
    by blast
  from promote_loop_appends [of "res_task_id res" "tasks s1" s1] obtain ps where
    ps: "task_queue ?s2 = task_queue s1 @ ps"
        "\<forall>k\<in>set ps. \<exists>t. (k, t) \<in> set (tasks s1) \<and> dependencies t \<noteq> []"
    unfolding promote_dependents_def by blast
  have ts': "tasks ?w = AList.update ?h t' (tasks s)"
    unfolding w using ts by (simp add: promote_dependents_def)
  have sch': "scheduled_puts ?w = scheduled_puts s"
    unfolding w using sch by (simp add: promote_dependents_def)
  have ps': "\<forall>k\<in>set ps. \<exists>t. (k, t) \<in> set (tasks ?w) \<and> dependencies t \<noteq> []"
    using ps(2) unfolding ts' ts .
  have q': "if retry_count t' = retry_count t0 then task_queue ?w = task_queue s @ ps
        else retry_count t0 < max_retries t0 \<and> retry_count t' = Suc (retry_count t0) \<and>
             task_queue ?w = task_queue s @ [?h] @ ps"
    unfolding w using q ps(1) by (auto split: if_splits)
  from exec_budget [OF inv t0 ts' keep sch' ps' q'] show ?thesis by simp
qed

lemma work_budget:
  assumes inv: "tracked tid s"
  shows "tracked tid (worker rnd att s) \<and>
         retry_budget tid (worker rnd att s) + (if starts rnd att tid s then 1 else 0)
           \<le> retry_budget tid s"
proof (cases "worker_start rnd att s")
  case (Pair fo s1)
  from start_budget [OF inv, of rnd att] Pair have
    i1: "tracked tid s1" and
    b1: "retry_budget tid s1 + (if starts rnd att tid s then 1 else 0) \<le> retry_budget tid s"
    by simp_all
  show ?thesis
  proof (cases fo)
    case None
    with Pair i1 b1 show ?thesis by (simp add: worker_def)
  next
    case (Some fr)
    from finish_budget [OF i1, of rnd att fr] Pair Some b1
    show ?thesis by (simp add: worker_def)
  qed
qed


lemma watched_not_tid:
  assumes "distinct (map fst ts)" and "map_of ts tid = Some t" and "dependencies t = []"
  shows "count_list (map fst (filter (\<lambda>(k, t). status t = PENDING \<and> dependencies t \<noteq> [] \<and>
                                        are_dependencies_met t s) ts)) tid = 0"
  by (rule promoted_not_tid [OF assms]) auto

lemma submit_task_fields:
  "tasks (snd (projr (submit_task uuid now ttype prm prio deps md s))) =
     AList.update uuid
       \<lparr>task_id = uuid, task_type = ttype, prompt = prm, priority = prio,
        status = PENDING, assigned_agent = None, created_at = now,
        started_at = None, completed_at = None, result = None, error = None,
        metadata = (case md of None \<Rightarrow> [] | Some m \<Rightarrow> m),
        dependencies = (case deps of None \<Rightarrow> [] | Some ds \<Rightarrow> ds),
        retry_count = 0, max_retries = 3\<rparr> (tasks s)"
  "task_queue (snd (projr (submit_task uuid now ttype prm prio deps md s))) =
     task_queue s @
       (if dependencies_loop (case deps of None \<Rightarrow> [] | Some ds \<Rightarrow> ds)
             (tasks (snd (projr (submit_task uuid now ttype prm prio deps md s))))
        then [uuid] else [])"
  "scheduled_puts (snd (projr (submit_task uuid now ttype prm prio deps md s))) =
     scheduled_puts s"
  by (simp_all add: submit_task_def Let_def queue_put_def are_dependencies_met_def)

lemma submit_budget:
  assumes inv: "tracked tid s" and ne: "uuid \<noteq> tid"
  shows "tracked tid (snd (projr (submit_task uuid now ttype prm prio deps md s))) \<and>
         retry_budget tid (snd (projr (submit_task uuid now ttype prm prio deps md s)))
           = retry_budget tid s"
proof -
  let ?s' = "snd (projr (submit_task uuid now ttype prm prio deps md s))"
  from inv obtain t where
    d: "distinct (map fst (tasks s))" and
    t: "map_of (tasks s) tid = Some t" and dep: "dependencies t = []" and
    rc: "retry_count t \<le> max_retries t"
    unfolding tracked_def by blast
  have d': "distinct (map fst (tasks ?s'))"
    unfolding submit_task_fields(1) using d by (simp add: distinct_update)
  have m': "map_of (tasks ?s') tid = Some t"
    unfolding submit_task_fields(1) using ne t by (simp add: update_conv')
  have c: "count_list (task_queue ?s') tid = count_list (task_queue s) tid"
    unfolding submit_task_fields(2) using ne by simp
  have "tracked tid ?s'"
    unfolding tracked_def m' using d' dep rc by simp
  moreover have "retry_budget tid ?s' = retry_budget tid s"
    unfolding retry_budget_def m' t c submit_task_fields(3) ..
  ultimately show ?thesis ..
qed

lemma watch_budget:
  assumes inv: "tracked tid s"
  shows "tracked tid (check_dependencies s) \<and>
         retry_budget tid (check_dependencies s) = retry_budget tid s"
proof -
  from inv obtain t where
    d: "distinct (map fst (tasks s))" and
    t: "map_of (tasks s) tid = Some t" and dep: "dependencies t = []"
    unfolding tracked_def by blast
  have ts: "tasks (check_dependencies s) = tasks s"
    by (simp add: check_dependencies_def)
  have sch: "scheduled_puts (check_dependencies s) = scheduled_puts s"
    by (simp add: check_dependencies_def watcher_loop_other_fields)
  have c: "count_list (task_queue (check_dependencies s)) tid = count_list (task_queue s) tid"
    unfolding check_dependencies_def watcher_loop_queue
    using watched_not_tid [OF d t dep, of s] by simp
  have "tracked tid (check_dependencies s)"
    using inv unfolding tracked_def ts .
  moreover have "retry_budget tid (check_dependencies s) = retry_budget tid s"
    unfolding retry_budget_def ts sch c ..
  ultimately show ?thesis ..
qed

lemma deliver_budget:
  assumes inv: "tracked tid s"
  shows "tracked tid (run_scheduled_put s) \<and>
         retry_budget tid (run_scheduled_put s) = retry_budget tid s"
proof (cases "scheduled_puts s")
  case Nil
  then show ?thesis using inv by (simp add: run_scheduled_put_def)
next
  case (Cons k rest)
  let ?s' = "run_scheduled_put s"
  have ts: "tasks ?s' = tasks s" and q: "task_queue ?s' = task_queue s @ [k]"
    and sch: "scheduled_puts ?s' = rest"
    using Cons by (simp_all add: run_scheduled_put_def queue_put_def)
  have "tracked tid ?s'" using inv unfolding tracked_def ts .
  moreover have "retry_budget tid ?s' = retry_budget tid s"
    unfolding retry_budget_def ts q sch Cons by simp
  ultimately show ?thesis ..
qed

lemma frames_budget:
  "tracked tid (s\<lparr>frames := fs\<rparr>) = tracked tid s"
  "retry_budget tid (s\<lparr>frames := fs\<rparr>) = retry_budget tid s"
  by (simp_all add: tracked_def retry_budget_def)

lemma step_budget:
  assumes inv: "tracked tid s"
    and nores: "\<forall>now ttype prio deps. e \<noteq> Submit tid now ttype prio deps"
    and nounr: "\<forall>aid. e \<noteq> Unregister aid"
  shows "tracked tid (step rnd e s) \<and>
         retry_budget tid (step rnd e s) +
           (case e of Work att \<Rightarrow> (if starts rnd att tid s then 1 else 0)
                    | Start att \<Rightarrow> (if starts rnd att tid s then 1 else 0)
                    | _ \<Rightarrow> 0)
           \<le> retry_budget tid s"
proof (cases e)
  case (Register aid nm prov caps ad)
  have "tasks (step rnd e s) = tasks s" "task_queue (step rnd e s) = task_queue s"
    "scheduled_puts (step rnd e s) = scheduled_puts s"
    unfolding Register by (simp_all add: register_agent_def Let_def split: option.splits)
  from budget_same_fields [OF this, of tid] inv Register show ?thesis by simp
next
  case (Unregister aid)
  with nounr show ?thesis by simp
next
  case (Submit uuid now ttype prio deps)
  with nores have "uuid \<noteq> tid" by auto
  have "step rnd e s = snd (projr (submit_task uuid now ttype [] prio deps None s))"
    unfolding Submit by (simp add: submit_task_def Let_def)
  with submit_budget [OF inv \<open>uuid \<noteq> tid\<close>, of now ttype "[]" prio deps None] Submit
  show ?thesis by simp
next
  case (Work att)
  then show ?thesis using work_budget [OF inv, of rnd att] by simp
next
  case Watch
  then show ?thesis using watch_budget [OF inv] by simp
next
  case (Start att)
  obtain fo s1 where ws: "worker_start rnd att s = (fo, s1)" by (cases "worker_start rnd att s")
  from start_budget [OF inv, of rnd att] ws have
    i1: "tracked tid s1" and
    b1: "retry_budget tid s1 + (if starts rnd att tid s then 1 else 0) \<le> retry_budget tid s"
    by simp_all
  show ?thesis
  proof (cases fo)
    case None
    with Start ws i1 b1 show ?thesis by simp
  next
    case (Some fr)
    with Start ws i1 b1 show ?thesis by (simp add: frames_budget)
  qed
next
  case (Finish n att)
  show ?thesis
  proof (cases "n < length (frames s)")
    case True
    let ?s1 = "s\<lparr>frames := take n (frames s) @ drop (Suc n) (frames s)\<rparr>"
    have "tracked tid ?s1" using inv by (simp add: frames_budget)
    from finish_budget [OF this, of rnd att "frames s ! n"] True Finish
    show ?thesis by (simp add: frames_budget)
  next
    case False
    with Finish inv show ?thesis by simp
  qed
next
  case Deliver
  then show ?thesis using deliver_budget [OF inv] by simp
qed

lemma run_budget:
  assumes "tracked tid s"
    and "\<forall>now ttype prio deps. Submit tid now ttype prio deps \<notin> set es"
    and "\<forall>aid. Unregister aid \<notin> set es"
  shows "executions rnd tid es s \<le> retry_budget tid s"
  using assms
proof (induction es arbitrary: s)
  case Nil
  then show ?case by simp
next
  case (Cons e es)
  have ne: "\<forall>now ttype prio deps. e \<noteq> Submit tid now ttype prio deps"
    using Cons.prems(2) by auto
  have nu: "\<forall>aid. e \<noteq> Unregister aid"
    using Cons.prems(3) by auto
  have rest: "\<forall>now ttype prio deps. Submit tid now ttype prio deps \<notin> set es"
    "\<forall>aid. Unregister aid \<notin> set es"
    using Cons.prems(2,3) by auto
  from step_budget [OF Cons.prems(1) ne nu, of rnd] have
    inv': "tracked tid (step rnd e s)" and
    le: "retry_budget tid (step rnd e s) +
           (case e of Work att \<Rightarrow> (if starts rnd att tid s then 1 else 0)
                    | Start att \<Rightarrow> (if starts rnd att tid s then 1 else 0)
                    | _ \<Rightarrow> 0)
           \<le> retry_budget tid s"
    by blast+
  from Cons.IH [OF inv' rest] le show ?case by simp
qed

lemma submitted_tracked:
  assumes nq: "tid \<notin> set (task_queue s0)" and ns: "tid \<notin> set (scheduled_puts s0)"
    and d: "distinct (map fst (tasks s0))"
    and deps: "deps = None \<or> deps = Some []"
  shows "tracked tid (snd (projr (submit_task tid now ttype prm prio deps md s0))) \<and>
         retry_budget tid (snd (projr (submit_task tid now ttype prm prio deps md s0))) = 3 + 1 \<and>
         map_option max_retries
           (map_of (tasks (snd (projr (submit_task tid now ttype prm prio deps md s0)))) tid) = Some 3"
proof -
  let ?s = "snd (projr (submit_task tid now ttype prm prio deps md s0))"
  let ?t = "\<lparr>task_id = tid, task_type = ttype, prompt = prm, priority = prio,
        status = PENDING, assigned_agent = None, created_at = now,
        started_at = None, completed_at = None, result = None, error = None,
        metadata = (case md of None \<Rightarrow> [] | Some m \<Rightarrow> m),
        dependencies = [], retry_count = 0, max_retries = 3\<rparr>"
  have dl: "(case deps of None \<Rightarrow> [] | Some ds \<Rightarrow> ds) = []" using deps by auto
  have ts: "tasks ?s = AList.update tid ?t (tasks s0)"
    unfolding submit_task_fields(1) dl ..
  have q: "task_queue ?s = task_queue s0 @ [tid]"
    unfolding submit_task_fields(2) dl by simp
  have m: "map_of (tasks ?s) tid = Some ?t"
    unfolding ts by (simp add: update_conv')
  have d': "distinct (map fst (tasks ?s))"
    unfolding ts using d by (simp add: distinct_update)
  have c: "count_list (task_queue ?s) tid = 1"
    unfolding q using nq by simp
  have c2: "count_list (scheduled_puts ?s) tid = 0"
    unfolding submit_task_fields(3) using ns by simp
  show ?thesis
    unfolding tracked_def retry_budget_def m c c2
    using d' by simp
qed


lemma unseen_same_fields:
  assumes "tasks s' = tasks s" and "task_queue s' = task_queue s"
    and "scheduled_puts s' = scheduled_puts s"
  shows "unseen tid s' = unseen tid s"
  using assms by (simp add: unseen_def)

lemma keys_update: "fst ` set (AList.update k v ts) = insert k (fst ` set ts)"
  by (induction ts) auto

lemma keys_reset:
  "map fst (map (\<lambda>(k, t). (k, f t)) ts) = map fst ts"
  by (induction ts) auto

lemma unseen_appends:
  assumes u: "unseen tid s"
    and ts: "fst ` set (tasks s') = insert h (fst ` set (tasks s))"
    and d: "distinct (map fst (tasks s'))"
    and h: "h \<noteq> tid"
    and q: "set (task_queue s') \<subseteq> set (task_queue s) \<union> fst ` set (tasks s')"
    and p: "set (scheduled_puts s') \<subseteq> set (scheduled_puts s) \<union> fst ` set (tasks s')"
  shows "unseen tid s'"
proof -
  from u have a: "tid \<notin> fst ` set (tasks s)" "tid \<notin> set (task_queue s)"
    "tid \<notin> set (scheduled_puts s)"
    by (simp_all add: unseen_def)
  have k: "tid \<notin> fst ` set (tasks s')" unfolding ts using a(1) h by simp
  from q a(2) k have "tid \<notin> set (task_queue s')" by blast
  moreover from p a(3) k have "tid \<notin> set (scheduled_puts s')" by blast
  ultimately show ?thesis unfolding unseen_def using d k by simp
qed

lemma unseen_keeps:
  assumes u: "unseen tid s"
    and ts: "map fst (tasks s') = map fst (tasks s)"
    and q: "set (task_queue s') \<subseteq> set (task_queue s) \<union> set (scheduled_puts s)
              \<union> fst ` set (tasks s)"
    and p: "set (scheduled_puts s') \<subseteq> set (scheduled_puts s) \<union> set (task_queue s)
              \<union> fst ` set (tasks s)"
  shows "unseen tid s'"
proof -
  from u have a: "tid \<notin> fst ` set (tasks s)" "tid \<notin> set (task_queue s)"
    "tid \<notin> set (scheduled_puts s)" "distinct (map fst (tasks s))"
    by (simp_all add: unseen_def)
  have ks: "fst ` set (tasks s') = fst ` set (tasks s)"
    using ts by (metis set_map)
  from q a have "tid \<notin> set (task_queue s')" by blast
  moreover from p a have "tid \<notin> set (scheduled_puts s')" by blast
  ultimately show ?thesis unfolding unseen_def ts ks using a by simp
qed

lemma start_unseen:
  assumes u: "unseen tid s"
  shows "unseen tid (snd (worker_start rnd att s))" and "\<not> starts rnd att tid s"
proof -
  from u have nq: "tid \<notin> set (task_queue s)" by (simp add: unseen_def)
  then show "\<not> starts rnd att tid s" by (auto simp: starts_iff)
  let ?s' = "snd (worker_start rnd att s)"
  from worker_start_effect [of s rnd att] show "unseen tid ?s'"
  proof (elim disjE exE conjE)
    assume "task_queue s = []" "worker_start rnd att s = (None, s)"
    then show ?thesis using u by simp
  next
    fix h q
    assume q: "task_queue s = h # q"
      and sch: "scheduled_puts ?s' = scheduled_puts s"
      and c: "case fst (worker_start rnd att s) of
         None \<Rightarrow> tasks ?s' = tasks s \<and> (task_queue ?s' = q \<or> task_queue ?s' = q @ [h])
       | Some fr \<Rightarrow>
           frame_task fr = h \<and> task_queue ?s' = q \<and>
           (\<exists>t0. map_of (tasks s) h = Some t0 \<and>
              tasks ?s' =
                AList.update h (t0\<lparr>status := IN_PROGRESS,
                                   assigned_agent := Some (frame_agent_id fr),
                                   started_at := Some (now_started att)\<rparr>) (tasks s))"
    show ?thesis
    proof (cases "fst (worker_start rnd att s)")
      case None
      with c have ts: "tasks ?s' = tasks s"
        and q': "task_queue ?s' = q \<or> task_queue ?s' = q @ [h]" by auto
      from q' q have "set (task_queue ?s') \<subseteq> set (task_queue s)" by auto
      then show ?thesis
        using u ts sch by (intro unseen_keeps [OF u]) auto
    next
      case (Some fr)
      with c obtain t0 where q': "task_queue ?s' = q"
        and t0: "map_of (tasks s) h = Some t0"
        and ts: "tasks ?s' =
                AList.update h (t0\<lparr>status := IN_PROGRESS,
                                   assigned_agent := Some (frame_agent_id fr),
                                   started_at := Some (now_started att)\<rparr>) (tasks s)"
        by auto
      have hk: "h \<in> fst ` set (tasks s)" using t0 by (metis map_of_eq_None_iff option.distinct(1))
      have ms: "map fst (tasks ?s') = map fst (tasks s)"
        unfolding ts using hk by (simp add: update_keys map_update_same)
      show ?thesis
        using q q' sch by (intro unseen_keeps [OF u ms]) auto
    qed
  qed
qed


lemma finish_unseen:
  assumes u: "unseen tid s"
  shows "unseen tid (worker_finish rnd att fr s)"
proof (cases "complete_execution rnd att (frame_task fr) (frame_agent_id fr) (frame_agent fr)
                (attached fr) s")
  case (Inl e)
  then have w: "worker_finish rnd att fr s = s\<lparr>active_tasks := active_tasks s - 1\<rparr>"
    by (simp add: worker_finish_def)
  show ?thesis unfolding w using u by (simp add: unseen_def)
next
  case (Inr r)
  obtain res s1 where r: "r = (res, s1)" by (cases r)
  let ?h = "frame_task fr"
  let ?s2 = "promote_dependents (res_task_id res) s1"
  let ?w = "worker_finish rnd att fr s"
  have w: "?w = ?s2\<lparr>active_tasks := active_tasks ?s2 - 1\<rparr>"
    using Inr r by (simp add: worker_finish_def Let_def)
  from complete_execution_Inr [OF Inr [unfolded r]] obtain t0 t' where
    t0: "map_of (tasks s) ?h = Some t0" and
    ts: "tasks s1 = AList.update ?h t' (tasks s)" and
    sch: "scheduled_puts s1 = scheduled_puts s" and
    q: "if retry_count t' = retry_count t0 then task_queue s1 = task_queue s
        else retry_count t0 < max_retries t0 \<and> retry_count t' = Suc (retry_count t0) \<and>
             task_queue s1 = task_queue s @ [?h]"
    by blast
  from promote_loop_appends [of "res_task_id res" "tasks s1" s1] obtain ps where
    ps: "task_queue ?s2 = task_queue s1 @ ps"
        "\<forall>k\<in>set ps. \<exists>t. (k, t) \<in> set (tasks s1) \<and> dependencies t \<noteq> []"
    unfolding promote_dependents_def by blast
  have hk: "?h \<in> fst ` set (tasks s)" using t0 by (metis map_of_eq_None_iff option.distinct(1))
  have ms1: "map fst (tasks s1) = map fst (tasks s)"
    unfolding ts using hk by (simp add: update_keys)
  have ks1: "fst ` set (tasks s1) = fst ` set (tasks s)"
    using ms1 by (metis set_map)
  have ms: "map fst (tasks ?w) = map fst (tasks s)"
    unfolding w using ms1 by (simp add: promote_dependents_def)
  have sch': "scheduled_puts ?w = scheduled_puts s"
    unfolding w using sch by (simp add: promote_dependents_def)
  have "set ps \<subseteq> fst ` set (tasks s1)"
    using ps(2) by force
  then have pk: "set ps \<subseteq> fst ` set (tasks s)" unfolding ks1 .
  have "set (task_queue s1) \<subseteq> set (task_queue s) \<union> fst ` set (tasks s)"
    using q hk by (auto split: if_splits)
  then have q': "set (task_queue ?w) \<subseteq> set (task_queue s) \<union> set (scheduled_puts s)
                      \<union> fst ` set (tasks s)"
    unfolding w using ps(1) pk by auto
  show ?thesis
    using q' sch' by (intro unseen_keeps [OF u ms]) auto
qed

lemma submit_unseen:
  assumes u: "unseen tid s" and ne: "uuid \<noteq> tid"
  shows "unseen tid (snd (projr (submit_task uuid now ttype prm prio deps md s)))"
proof (rule unseen_appends [OF u _ _ ne])
  let ?s' = "snd (projr (submit_task uuid now ttype prm prio deps md s))"
  show "fst ` set (tasks ?s') = insert uuid (fst ` set (tasks s))"
    unfolding submit_task_fields(1) by (rule keys_update)
  show "distinct (map fst (tasks ?s'))"
    unfolding submit_task_fields(1) using u by (simp add: unseen_def distinct_update)
  show "set (task_queue ?s') \<subseteq> set (task_queue s) \<union> fst ` set (tasks ?s')"
    unfolding submit_task_fields(2) submit_task_fields(1) keys_update by auto
  show "set (scheduled_puts ?s') \<subseteq> set (scheduled_puts s) \<union> fst ` set (tasks ?s')"
    unfolding submit_task_fields(3) by auto
qed

lemma unregister_unseen:
  assumes u: "unseen tid s"
  shows "unseen tid (snd (unregister_agent True aid s))"
proof (cases "aid \<in> fst ` set (agents s)")
  case False
  then show ?thesis using u by (simp add: unregister_agent_unknown)
next
  case True
  note un = unregister_agent_loop [OF True]
  show ?thesis
  proof (rule unseen_keeps [OF u])
    show "map fst (tasks (snd (unregister_agent True aid s))) = map fst (tasks s)"
      unfolding un(2) by (rule keys_reset)
    show "set (task_queue (snd (unregister_agent True aid s)))
            \<subseteq> set (task_queue s) \<union> set (scheduled_puts s) \<union> fst ` set (tasks s)"
      unfolding un(3) by auto
    show "set (scheduled_puts (snd (unregister_agent True aid s)))
            \<subseteq> set (scheduled_puts s) \<union> set (task_queue s) \<union> fst ` set (tasks s)"
      unfolding un(4) by force
  qed
qed

lemma step_unseen:
  assumes u: "unseen tid s"
    and nores: "\<forall>now ttype prio deps. e \<noteq> Submit tid now ttype prio deps"
  shows "unseen tid (step rnd e s)"
proof (cases e)
  case (Register aid nm prov caps ad)
  have "tasks (step rnd e s) = tasks s" "task_queue (step rnd e s) = task_queue s"
    "scheduled_puts (step rnd e s) = scheduled_puts s"
    unfolding Register by (simp_all add: register_agent_def Let_def split: option.splits)
  from unseen_same_fields [OF this, of tid] u show ?thesis by simp
next
  case (Unregister aid)
  have d: "unseen tid (detach aid s)"
    using u by (simp add: unseen_def)
  show ?thesis
    unfolding Unregister using unregister_unseen [OF u, of aid] unregister_unseen [OF d, of aid]
    by simp
next
  case (Submit uuid now ttype prio deps)
  with nores have "uuid \<noteq> tid" by auto
  have "step rnd e s = snd (projr (submit_task uuid now ttype [] prio deps None s))"
    unfolding Submit by (simp add: submit_task_def Let_def)
  with submit_unseen [OF u \<open>uuid \<noteq> tid\<close>, of now ttype "[]" prio deps None]
  show ?thesis by simp
next
  case (Work att)
  obtain fo s1 where ws: "worker_start rnd att s = (fo, s1)" by (cases "worker_start rnd att s")
  from start_unseen(1) [OF u, of rnd att] ws have u1: "unseen tid s1" by simp
  show ?thesis
  proof (cases fo)
    case None
    with Work ws u1 show ?thesis by (simp add: worker_def)
  next
    case (Some fr)
    from finish_unseen [OF u1, of rnd att fr] Work ws Some
    show ?thesis by (simp add: worker_def)
  qed
next
  case Watch
  show ?thesis
    unfolding Watch step.simps check_dependencies_def
  proof (rule unseen_keeps [OF u])
    show "map fst (tasks (watcher_loop (tasks s) s)) = map fst (tasks s)" by simp
    show "set (task_queue (watcher_loop (tasks s) s))
            \<subseteq> set (task_queue s) \<union> set (scheduled_puts s) \<union> fst ` set (tasks s)"
      unfolding watcher_loop_queue by force
    show "set (scheduled_puts (watcher_loop (tasks s) s))
            \<subseteq> set (scheduled_puts s) \<union> set (task_queue s) \<union> fst ` set (tasks s)"
      by auto
  qed
next
  case (Start att)
  obtain fo s1 where ws: "worker_start rnd att s = (fo, s1)" by (cases "worker_start rnd att s")
  from start_unseen(1) [OF u, of rnd att] ws have u1: "unseen tid s1" by simp
  show ?thesis
  proof (cases fo)
    case None
    with Start ws u1 show ?thesis by simp
  next
    case (Some fr)
    with Start ws u1 show ?thesis by (simp add: unseen_def)
  qed
next
  case (Finish n att)
  show ?thesis
  proof (cases "n < length (frames s)")
    case True
    let ?s1 = "s\<lparr>frames := take n (frames s) @ drop (Suc n) (frames s)\<rparr>"
    have "unseen tid ?s1" using u by (simp add: unseen_def)
    from finish_unseen [OF this, of rnd att "frames s ! n"] True Finish
    show ?thesis by simp
  next
    case False
    with Finish u show ?thesis by simp
  qed
next
  case Deliver
  show ?thesis
  proof (cases "scheduled_puts s")
    case Nil
    then show ?thesis using u Deliver by (simp add: run_scheduled_put_def)
  next
    case (Cons k rest)
    show ?thesis
      unfolding Deliver step.simps
    proof (rule unseen_keeps [OF u])
      show "map fst (tasks (run_scheduled_put s)) = map fst (tasks s)"
        using Cons by (simp add: run_scheduled_put_def queue_put_def)
      show "set (task_queue (run_scheduled_put s))
              \<subseteq> set (task_queue s) \<union> set (scheduled_puts s) \<union> fst ` set (tasks s)"
        using Cons by (auto simp: run_scheduled_put_def queue_put_def)
      show "set (scheduled_puts (run_scheduled_put s))
              \<subseteq> set (scheduled_puts s) \<union> set (task_queue s) \<union> fst ` set (tasks s)"
        using Cons by (auto simp: run_scheduled_put_def queue_put_def)
    qed
  qed
qed


lemma run_unseen:
  assumes "unseen tid s"
    and "\<forall>now ttype prio deps. Submit tid now ttype prio deps \<notin> set es"
  shows "unseen tid (run rnd es s) \<and> executions rnd tid es s = 0"
  using assms
proof (induction es arbitrary: s)
  case Nil
  then show ?case by simp
next
  case (Cons e es)
  have ne: "\<forall>now ttype prio deps. e \<noteq> Submit tid now ttype prio deps"
    using Cons.prems(2) by auto
  have rest: "\<forall>now ttype prio deps. Submit tid now ttype prio deps \<notin> set es"
    using Cons.prems(2) by auto
  have ns: "\<not> starts rnd att tid s" for att
    by (rule start_unseen(2) [OF Cons.prems(1)])
  from Cons.IH [OF step_unseen [OF Cons.prems(1) ne] rest, of rnd] ns
  show ?case by (simp split: event.split)
qed

lemma executions_append:
  "executions rnd tid (es @ es') s =
     executions rnd tid es s + executions rnd tid es' (run rnd es s)"
  by (induction es arbitrary: s) simp_all

lemma run_append: "run rnd (es @ es') s = run rnd es' (run rnd es s)"
  by (induction es arbitrary: s) simp_all

lemma unseen_init: "unseen tid (init n)"
  by (simp add: unseen_def init_def)

lemma step_Submit:
  "step rnd (Submit uuid now ttype prio deps) s =
     snd (projr (submit_task uuid now ttype [] prio deps None s))"
  by (simp add: submit_task_def Let_def)

lemma bound_after_submission:
  assumes "tid \<notin> set (task_queue s0)" and "tid \<notin> set (scheduled_puts s0)"
    and "distinct (map fst (tasks s0))" and "deps = None \<or> deps = Some []"
    and "\<forall>now' ttype' prio' deps'. Submit tid now' ttype' prio' deps' \<notin> set es"
    and "\<forall>aid. Unregister aid \<notin> set es"
  shows "map_option max_retries
        (map_of (tasks (snd (projr (submit_task tid now ttype prm prio deps md s0)))) tid) = Some 3"
    and "executions rnd tid es (snd (projr (submit_task tid now ttype prm prio deps md s0))) \<le> 3 + 1"
proof -
  let ?s = "snd (projr (submit_task tid now ttype prm prio deps md s0))"
  from submitted_tracked [OF assms(1-4), of now ttype prm prio md] have
    inv: "tracked tid ?s" and bud: "retry_budget tid ?s = 3 + 1" and
    m: "map_option max_retries (map_of (tasks ?s) tid) = Some 3"
    by blast+
  show "map_option max_retries (map_of (tasks ?s) tid) = Some 3" by (rule m)
  from run_budget [OF inv assms(5,6), of rnd] bud
  show "executions rnd tid es ?s \<le> 3 + 1" by simp
qed




end
